theory Spec2Isabelle
  imports Complex_Main "HOL-Library.Word" "HOL-Library.Sublist"
begin

section \<open>Values of the JavaScript runtime\<close>

text \<open>
  The plugin works on Node \<open>Buffer\<close>s: arrays of unsigned bytes.  Reading a buffer at an
  index outside \<open>0 .. length - 1\<close> (a negative index included) yields \<open>undefined\<close>, and
  writing there is ignored.  Arithmetic on \<open>undefined\<close> yields \<open>NaN\<close>, and every
  comparison with \<open>NaN\<close> is false.  The numbers the pixel code computes are sums and
  differences of bytes, so a number is an integer or \<open>NaN\<close>.
\<close>

type_synonym byte = "8 word"
type_synonym buffer = "byte list"

datatype num = Num int | NaN

definition buf_at :: "buffer \<Rightarrow> int \<Rightarrow> byte option" where
  "buf_at pixels i =
     (if 0 \<le> i \<and> i < int (length pixels) then Some (pixels ! nat i) else None)"

definition toNumber :: "byte option \<Rightarrow> num" where
  "toNumber v = (case v of None \<Rightarrow> NaN | Some x \<Rightarrow> Num (uint x))"

fun num_add :: "num \<Rightarrow> num \<Rightarrow> num" where
  "num_add (Num a) (Num c) = Num (a + c)"
| "num_add _ _ = NaN"

fun num_sub :: "num \<Rightarrow> num \<Rightarrow> num" where
  "num_sub (Num a) (Num c) = Num (a - c)"
| "num_sub _ _ = NaN"

fun num_abs :: "num \<Rightarrow> num" where
  "num_abs (Num a) = Num \<bar>a\<bar>"
| "num_abs NaN = NaN"

fun num_le :: "num \<Rightarrow> num \<Rightarrow> bool" where
  "num_le (Num a) (Num c) = (a \<le> c)"
| "num_le _ _ = False"

fun num_lt :: "num \<Rightarrow> num \<Rightarrow> bool" where
  "num_lt (Num a) (Num c) = (a < c)"
| "num_lt _ _ = False"

fun num_gt :: "num \<Rightarrow> num \<Rightarrow> bool" where
  "num_gt (Num a) (Num c) = (a > c)"
| "num_gt _ _ = False"

text \<open>The object \<open>{ r, g, b }\<close> that carries a background colour.\<close>

record color =
  color_r :: num
  color_g :: num
  color_b :: num

section \<open>Transparency masker\<close>

text \<open>
  \<open>makeBackgroundTransparent\<close> of \<open>main.ts\<close>; the second half of
  \<open>removeBackgroundColor\<close> in the padding variant of the plugin runs the same loop with
  \<open>settings.backgroundTolerance\<close> as tolerance.  The test of one pixel, whose first byte
  is at index \<open>i\<close>:
\<close>

definition isBackground :: "buffer \<Rightarrow> nat \<Rightarrow> color \<Rightarrow> int \<Rightarrow> bool" where
  "isBackground pixels i bg tolerance =
     (let dr = num_abs (num_sub (toNumber (buf_at pixels (int i))) (color_r bg));
          dg = num_abs (num_sub (toNumber (buf_at pixels (int i + 1))) (color_g bg));
          db = num_abs (num_sub (toNumber (buf_at pixels (int i + 2))) (color_b bg))
      in num_le dr (Num tolerance) \<and> num_le dg (Num tolerance) \<and> num_le db (Num tolerance))"

text \<open>
  The loop \<open>for (let i = 0; i < pixels.length; i += 4)\<close>, with the buffer passed along.
  \<open>pixels[i + 3] = 0\<close> is \<open>pixels[i + 3 := 0]\<close>: both do nothing when \<open>i + 3\<close> is past
  the end.
\<close>

function maskLoop :: "nat \<Rightarrow> buffer \<Rightarrow> color \<Rightarrow> int \<Rightarrow> buffer" where
  "maskLoop i pixels bg tolerance =
     (if i < length pixels
      then maskLoop (i + 4)
             (if isBackground pixels i bg tolerance then pixels[i + 3 := 0] else pixels)
             bg tolerance
      else pixels)"
  by pat_completeness auto
termination
  by (relation "measure (\<lambda>(i, pixels, bg, tolerance). length pixels - i)") auto

declare maskLoop.simps [simp del]

definition makeBackgroundTransparent :: "buffer \<Rightarrow> color \<Rightarrow> int \<Rightarrow> buffer" where
  "makeBackgroundTransparent pixels bg tolerance = maskLoop 0 pixels bg tolerance"

section \<open>Bounds finder\<close>

text \<open>
  \<open>findContentBounds\<close> of \<open>main.ts\<close>.  The threshold is \<open>settings.trimThreshold\<close>.
  A pixel is content when \<open>pixels[(y * width + x) * 4 + 3] > threshold\<close>.
\<close>

record bounds =
  bounds_top :: nat
  bounds_bottom :: nat
  bounds_left :: nat
  bounds_right :: nat

definition isContent :: "buffer \<Rightarrow> nat \<Rightarrow> int \<Rightarrow> nat \<Rightarrow> nat \<Rightarrow> bool" where
  "isContent pixels width threshold x y =
     num_gt (toNumber (buf_at pixels ((int y * int width + int x) * 4 + 3))) (Num threshold)"

text \<open>The inner loops: over \<open>x\<close> for a row \<open>y\<close>, over \<open>y\<close> for a column \<open>x\<close>.\<close>

definition rowHasContent :: "buffer \<Rightarrow> nat \<Rightarrow> int \<Rightarrow> nat \<Rightarrow> bool" where
  "rowHasContent pixels width threshold y =
     list_ex (\<lambda>x. isContent pixels width threshold x y) [0..<width]"

definition colHasContent :: "buffer \<Rightarrow> nat \<Rightarrow> nat \<Rightarrow> int \<Rightarrow> nat \<Rightarrow> bool" where
  "colHasContent pixels width height threshold x =
     list_ex (\<lambda>y. isContent pixels width threshold x y) [0..<height]"

text \<open>
  Each labelled loop stops at the first row (column) that has a content pixel, scanning
  upwards for \<open>top\<close> and \<open>left\<close> and downwards for \<open>bottom\<close> and \<open>right\<close>; an edge keeps
  its initial value \<open>0\<close>, \<open>height\<close>, \<open>0\<close>, \<open>width\<close> when its loop finds nothing.
\<close>

definition findContentBounds :: "buffer \<Rightarrow> nat \<Rightarrow> nat \<Rightarrow> int \<Rightarrow> bounds" where
  "findContentBounds pixels width height threshold =
     \<lparr> bounds_top =
         (case find (rowHasContent pixels width threshold) [0..<height] of
            Some y \<Rightarrow> y | None \<Rightarrow> 0),
       bounds_bottom =
         (case find (rowHasContent pixels width threshold) (rev [0..<height]) of
            Some y \<Rightarrow> y + 1 | None \<Rightarrow> height),
       bounds_left =
         (case find (colHasContent pixels width height threshold) [0..<width] of
            Some x \<Rightarrow> x | None \<Rightarrow> 0),
       bounds_right =
         (case find (colHasContent pixels width height threshold) (rev [0..<width]) of
            Some x \<Rightarrow> x + 1 | None \<Rightarrow> width) \<rparr>"

text \<open>The alpha byte of the pixel in column \<open>x\<close> of row \<open>y\<close>, as a number.\<close>

definition alphaAt :: "buffer \<Rightarrow> nat \<Rightarrow> nat \<Rightarrow> nat \<Rightarrow> int" where
  "alphaAt pixels width x y = uint (pixels ! ((y * width + x) * 4 + 3))"

section \<open>Background detector\<close>

text \<open>
  The running sums \<open>r\<close>, \<open>g\<close>, \<open>b\<close> and \<open>count\<close>.  One sample at \<open>(x, y)\<close> is the body
  shared by the corner loops and the edge loops: skip when the alpha byte is below 128,
  else add the three colour bytes and count the pixel.  A read outside the buffer is
  \<open>undefined\<close>: \<open>undefined < 128\<close> is false, so the pixel is counted and the sums become
  \<open>NaN\<close>.
\<close>

type_synonym totals = "num \<times> num \<times> num \<times> nat"

definition samplePixel :: "buffer \<Rightarrow> nat \<Rightarrow> int \<times> int \<Rightarrow> totals \<Rightarrow> totals" where
  "samplePixel pixels width xy acc =
     (case (xy, acc) of ((x, y), (sr, sg, sb, count)) \<Rightarrow>
        let idx = (y * int width + x) * 4 in
        if num_lt (toNumber (buf_at pixels (idx + 3))) (Num 128) then acc
        else (num_add sr (toNumber (buf_at pixels idx)),
              num_add sg (toNumber (buf_at pixels (idx + 1))),
              num_add sb (toNumber (buf_at pixels (idx + 2))),
              count + 1))"

definition sampleSize :: nat where
  "sampleSize = 20"

definition corners :: "nat \<Rightarrow> nat \<Rightarrow> (int \<times> int) list" where
  "corners width height =
     [(0, 0),
      (int width - int sampleSize, 0),
      (0, int height - int sampleSize),
      (int width - int sampleSize, int height - int sampleSize)]"

text \<open>
  The coordinates the corner loops of \<open>detectBackgroundColor\<close> reach, in loop order,
  after the test \<open>if (x >= width || y >= height) continue\<close>.
\<close>

definition cornerSamples :: "nat \<Rightarrow> nat \<Rightarrow> (int \<times> int) list" where
  "cornerSamples width height =
     filter (\<lambda>(x, y). \<not> (x \<ge> int width \<or> y \<ge> int height))
       [(cx + int dx, cy + int dy).
          (cx, cy) \<leftarrow> corners width height, dy \<leftarrow> [0..<sampleSize], dx \<leftarrow> [0..<sampleSize]]"

text \<open>The values of \<open>for (let x = 0; x < n; x += 10)\<close>.\<close>

definition everyTenth :: "nat \<Rightarrow> int list" where
  "everyTenth n = map (\<lambda>k. 10 * int k) [0..<(n + 9) div 10]"

definition edgeSamples :: "nat \<Rightarrow> nat \<Rightarrow> (int \<times> int) list" where
  "edgeSamples width height =
     [(x, y). x \<leftarrow> everyTenth width, y \<leftarrow> [0, int height - 1]] @
     [(x, y). y \<leftarrow> everyTenth height, x \<leftarrow> [0, int width - 1]]"

text \<open>
  \<open>Math.round(s / count)\<close> rounds the quotient to the nearest integer, a half upwards.
  The sums are integers of at most a few hundred thousand, so the quotient is formed
  without rounding error and the result is the floor of the exact quotient plus a half.
\<close>

definition roundDiv :: "int \<Rightarrow> nat \<Rightarrow> int" where
  "roundDiv s count = \<lfloor>(of_int s :: rat) / of_nat count + 1 / 2\<rfloor>"

fun roundMean :: "num \<Rightarrow> nat \<Rightarrow> num" where
  "roundMean (Num s) count = Num (roundDiv s count)"
| "roundMean NaN count = NaN"

definition detectBackgroundColor :: "buffer \<Rightarrow> nat \<Rightarrow> nat \<Rightarrow> color option" where
  "detectBackgroundColor pixels width height =
     (let acc = fold (samplePixel pixels width) (cornerSamples width height)
                  (Num 0, Num 0, Num 0, 0);
          acc = (if snd (snd (snd acc)) < 100
                 then fold (samplePixel pixels width) (edgeSamples width height) acc
                 else acc)
      in case acc of (sr, sg, sb, count) \<Rightarrow>
           if count = 0 then None
           else Some \<lparr> color_r = roundMean sr count,
                       color_g = roundMean sg count,
                       color_b = roundMean sb count \<rparr>)"

section \<open>Settings, errors and the image library\<close>

text \<open>
  \<open>ImageAutocropSettings\<close>.  The record has the fields of the padding variant;
  \<open>main.ts\<close> declares and reads \<open>watchedFolder\<close>, \<open>targetSize\<close>, \<open>enabled\<close>,
  \<open>trimThreshold\<close> and \<open>keepBackup\<close> only.
\<close>

record settings =
  watchedFolder :: string
  targetSize :: int
  enabled :: bool
  processExisting :: bool
  trimThreshold :: int
  backgroundColor :: string
  removeBackground :: bool
  backgroundTolerance :: int
  keepBackup :: bool

text \<open>A thrown \<open>Error\<close> object, with its message.\<close>

datatype js_error = Error string

fun message :: "js_error \<Rightarrow> string" where
  "message (Error m) = m"

text \<open>
  The image library \<open>sharp\<close> is an external module, loaded at run time.  It appears here
  as a record with one field for every chain of \<open>sharp\<close> calls that the plugin awaits;
  each chain either resolves with a value or rejects with an error.

  \<^item> \<open>toRaw input\<close>: \<open>sharp(input).ensureAlpha().raw().toBuffer({ resolveWithObject: true })\<close>
  \<^item> \<open>extractResizePng raw region size\<close>:
    \<open>sharp(pixels, { raw }).extract(region).resize(size, size, { fit: "inside", kernel: "lanczos3" }).png(...).toBuffer()\<close>
  \<^item> \<open>toPng input\<close>: \<open>sharp(input).png(...).toBuffer()\<close>
  \<^item> \<open>metadata input\<close>: \<open>sharp(input).metadata()\<close>
  \<^item> \<open>trim input threshold\<close>: \<open>sharp(input).trim({ threshold }).toBuffer({ resolveWithObject: true })\<close>
  \<^item> \<open>extendResizePng data ext size\<close>:
    \<open>sharp(data).extend(ext).resize(size, size, { fit: "fill", kernel: "lanczos3" }).png(...).toBuffer()\<close>
  \<^item> \<open>resizeContainPng input size\<close>:
    \<open>sharp(input).resize(size, size, { fit: "contain", background: transparent, kernel: "lanczos3" }).png(...).toBuffer()\<close>
  \<^item> \<open>rawToPng raw\<close>: \<open>sharp(pixels, { raw }).png().toBuffer()\<close>
\<close>

record raw_image =
  raw_data :: buffer
  raw_width :: nat
  raw_height :: nat

record region =
  region_left :: int
  region_top :: int
  region_width :: int
  region_height :: int

record image_metadata =
  meta_width :: "nat option"
  meta_height :: "nat option"

record trimmed_image =
  trimmed_data :: buffer
  trimmed_width :: int
  trimmed_height :: int

record rgba =
  rgba_r :: num
  rgba_g :: num
  rgba_b :: num
  rgba_alpha :: "rat option"

record extend_options =
  extend_top :: int
  extend_bottom :: int
  extend_left :: int
  extend_right :: int
  extend_background :: rgba

record sharp_lib =
  toRaw :: "buffer \<Rightarrow> js_error + raw_image"
  extractResizePng :: "raw_image \<Rightarrow> region \<Rightarrow> int \<Rightarrow> js_error + buffer"
  toPng :: "buffer \<Rightarrow> js_error + buffer"
  metadata :: "buffer \<Rightarrow> js_error + image_metadata"
  trim :: "buffer \<Rightarrow> int \<Rightarrow> js_error + trimmed_image"
  extendResizePng :: "buffer \<Rightarrow> extend_options \<Rightarrow> int \<Rightarrow> js_error + buffer"
  resizeContainPng :: "buffer \<Rightarrow> int \<Rightarrow> js_error + buffer"
  rawToPng :: "raw_image \<Rightarrow> js_error + buffer"

section \<open>The autocrop pipeline of \<open>main.ts\<close>\<close>

text \<open>
  The module variable \<open>sharp\<close> is \<open>null\<close> when the library failed to load: the first
  argument is \<open>None\<close> then, and the functions return \<open>null\<close>, here \<open>Inr None\<close>.  A
  rejected promise is \<open>Inl\<close>.
\<close>

definition resizeOnly :: "sharp_lib option \<Rightarrow> buffer \<Rightarrow> js_error + buffer option" where
  "resizeOnly sharp inputBuffer =
     (case sharp of
        None \<Rightarrow> Inr None
      | Some lib \<Rightarrow>
          (case toPng lib inputBuffer of
             Inl error \<Rightarrow> Inl error
           | Inr result \<Rightarrow> Inr (Some result)))"

text \<open>The three pixel stages between decoding and the crop: detect, mask with tolerance 30, find bounds.\<close>

definition maskedPixels :: "buffer \<Rightarrow> nat \<Rightarrow> nat \<Rightarrow> buffer" where
  "maskedPixels pixels width height =
     (case detectBackgroundColor pixels width height of
        Some bgColor \<Rightarrow> makeBackgroundTransparent pixels bgColor 30
      | None \<Rightarrow> pixels)"

definition cropRegion :: "bounds \<Rightarrow> region" where
  "cropRegion bnds =
     \<lparr> region_left = int (bounds_left bnds),
       region_top = int (bounds_top bnds),
       region_width = int (bounds_right bnds) - int (bounds_left bnds),
       region_height = int (bounds_bottom bnds) - int (bounds_top bnds) \<rparr>"

text \<open>The body of the \<open>try\<close> block of \<open>autocropImage\<close>.\<close>

definition autocropTry :: "sharp_lib \<Rightarrow> settings \<Rightarrow> buffer \<Rightarrow> js_error + buffer" where
  "autocropTry lib cfg inputBuffer =
     (case toRaw lib inputBuffer of
        Inl error \<Rightarrow> Inl error
      | Inr raw \<Rightarrow>
          let width = raw_width raw;
              height = raw_height raw;
              pixels = maskedPixels (raw_data raw) width height;
              bnds = findContentBounds pixels width height (trimThreshold cfg)
          in extractResizePng lib
               \<lparr> raw_data = pixels, raw_width = width, raw_height = height \<rparr>
               (cropRegion bnds) (targetSize cfg))"

text \<open>\<open>autocropImage\<close>: whatever the \<open>try\<close> block throws, the \<open>catch\<close> returns \<open>resizeOnly\<close>.\<close>

definition autocropImage :: "sharp_lib option \<Rightarrow> settings \<Rightarrow> buffer \<Rightarrow> js_error + buffer option" where
  "autocropImage sharp cfg inputBuffer =
     (case sharp of
        None \<Rightarrow> Inr None
      | Some lib \<Rightarrow>
          (case autocropTry lib cfg inputBuffer of
             Inr result \<Rightarrow> Inr (Some result)
           | Inl error \<Rightarrow> resizeOnly sharp inputBuffer))"

section \<open>Strings\<close>

text \<open>
  \<open>s.lastIndexOf(c)\<close> is \<open>-1\<close> when \<open>c\<close> does not occur.  \<open>s.substring(start, end)\<close>
  clamps both arguments to \<open>0 .. s.length\<close> and swaps them when \<open>start > end\<close>;
  \<open>s.substring(start)\<close> ends at \<open>s.length\<close>.  Strings are taken to be ASCII, one
  \<open>char\<close> for each UTF-16 unit.
\<close>

definition lastIndexOf :: "string \<Rightarrow> char \<Rightarrow> int" where
  "lastIndexOf s c =
     (case find (\<lambda>i. s ! i = c) (rev [0..<length s]) of
        None \<Rightarrow> - 1
      | Some i \<Rightarrow> int i)"

definition substring :: "string \<Rightarrow> int \<Rightarrow> int \<Rightarrow> string" where
  "substring s start stop =
     (let len = int (length s);
          a = max 0 (min start len);
          b = max 0 (min stop len);
          lo = min a b;
          hi = max a b
      in take (nat (hi - lo)) (drop (nat lo) s))"

definition substringFrom :: "string \<Rightarrow> int \<Rightarrow> string" where
  "substringFrom s start = substring s start (int (length s))"

section \<open>The padding variant of the pipeline\<close>

text \<open>
  The second copy of the plugin source trims with \<open>sharp\<close>, pads the trimmed image to a
  square and resizes it.  Its functions that share a name with \<open>main.ts\<close> carry the
  suffix \<open>_pad\<close>.
\<close>

subsection \<open>\<open>parseColor\<close>\<close>

text \<open>
  \<open>parseInt(s, 16)\<close>: skip leading white space, read a sign, skip a prefix \<open>0x\<close> or
  \<open>0X\<close>, then read hexadecimal digits up to the first other character; \<open>NaN\<close> when
  there is no digit.
\<close>

definition hexDigit :: "char \<Rightarrow> nat option" where
  "hexDigit c =
     (let n = (of_char c :: nat) in
      if 48 \<le> n \<and> n \<le> 57 then Some (n - 48)
      else if 97 \<le> n \<and> n \<le> 102 then Some (n - 87)
      else if 65 \<le> n \<and> n \<le> 70 then Some (n - 55)
      else None)"

definition isWhiteSpace :: "char \<Rightarrow> bool" where
  "isWhiteSpace c = ((of_char c :: nat) \<in> {9, 10, 11, 12, 13, 32})"

definition parseInt16 :: "string \<Rightarrow> num" where
  "parseInt16 s =
     (let s1 = dropWhile isWhiteSpace s;
          negative = (case s1 of c # _ \<Rightarrow> c = CHR ''-'' | [] \<Rightarrow> False);
          s2 = (case s1 of
                  c # rest \<Rightarrow> if c = CHR ''-'' \<or> c = CHR ''+'' then rest else s1
                | [] \<Rightarrow> []);
          s3 = (case s2 of
                  c # d # rest \<Rightarrow>
                    if c = CHR ''0'' \<and> (d = CHR ''x'' \<or> d = CHR ''X'') then rest else s2
                | _ \<Rightarrow> s2);
          digits = takeWhile (\<lambda>c. hexDigit c \<noteq> None) s3;
          magnitude = foldl (\<lambda>acc c. 16 * acc + int (the (hexDigit c))) 0 digits
      in if digits = [] then NaN
         else Num (if negative then - magnitude else magnitude))"

definition parseColor :: "string \<Rightarrow> rgba" where
  "parseColor colour =
     (let hex = remove1 (CHR ''#'') colour in
      if length hex = 6 then
        \<lparr> rgba_r = parseInt16 (substring hex 0 2),
          rgba_g = parseInt16 (substring hex 2 4),
          rgba_b = parseInt16 (substring hex 4 6),
          rgba_alpha = Some 1 \<rparr>
      else if length hex = 8 then
        \<lparr> rgba_r = parseInt16 (substring hex 0 2),
          rgba_g = parseInt16 (substring hex 2 4),
          rgba_b = parseInt16 (substring hex 4 6),
          rgba_alpha = (case parseInt16 (substring hex 6 8) of
                          Num n \<Rightarrow> Some (of_int n / 255)
                        | NaN \<Rightarrow> None) \<rparr>
      else \<lparr> rgba_r = Num 0, rgba_g = Num 0, rgba_b = Num 0, rgba_alpha = Some 0 \<rparr>)"

subsection \<open>\<open>removeBackgroundColor\<close>\<close>

text \<open>A missing or zero dimension is falsy.\<close>

definition falsy :: "nat option \<Rightarrow> bool" where
  "falsy v = (case v of None \<Rightarrow> True | Some n \<Rightarrow> n = 0)"

text \<open>
  The corner loops of this variant stop a row or column at the image border:
  \<open>for (let dy = 0; dy < sampleSize && corner.y + dy < height; dy++)\<close>.
\<close>

definition cornerSamples_pad :: "nat \<Rightarrow> nat \<Rightarrow> (int \<times> int) list" where
  "cornerSamples_pad width height =
     [(cx + int dx, cy + int dy).
        (cx, cy) \<leftarrow> corners width height,
        dy \<leftarrow> takeWhile (\<lambda>dy. cy + int dy < int height) [0..<sampleSize],
        dx \<leftarrow> takeWhile (\<lambda>dx. cx + int dx < int width) [0..<sampleSize]]"

text \<open>
  Every failure inside \<open>removeBackgroundColor\<close> is caught there and answered with the
  input buffer.  The sampled coordinates come from the metadata's dimensions, the pixel
  index from the width of the raw image.
\<close>

definition removeBackgroundColor :: "sharp_lib option \<Rightarrow> settings \<Rightarrow> buffer \<Rightarrow> buffer" where
  "removeBackgroundColor sharp cfg inputBuffer =
     (case sharp of
        None \<Rightarrow> inputBuffer
      | Some lib \<Rightarrow>
          (case metadata lib inputBuffer of
             Inl error \<Rightarrow> inputBuffer
           | Inr md \<Rightarrow>
               if falsy (meta_width md) \<or> falsy (meta_height md) then inputBuffer
               else
                 let width = the (meta_width md);
                     height = the (meta_height md)
                 in (case toRaw lib inputBuffer of
                       Inl error \<Rightarrow> inputBuffer
                     | Inr rawImage \<Rightarrow>
                         let pixels = raw_data rawImage;
                             imgWidth = raw_width rawImage
                         in (case fold (samplePixel pixels imgWidth)
                                    (cornerSamples_pad width height) (Num 0, Num 0, Num 0, 0) of
                               (totalR, totalG, totalB, pixelCount) \<Rightarrow>
                                 if pixelCount = 0 then inputBuffer
                                 else
                                   let bg = \<lparr> color_r = roundMean totalR pixelCount,
                                              color_g = roundMean totalG pixelCount,
                                              color_b = roundMean totalB pixelCount \<rparr>;
                                       masked = makeBackgroundTransparent pixels bg
                                                  (backgroundTolerance cfg)
                                   in (case rawToPng lib
                                              \<lparr> raw_data = masked,
                                                raw_width = raw_width rawImage,
                                                raw_height = raw_height rawImage \<rparr> of
                                         Inl error \<Rightarrow> inputBuffer
                                       | Inr result \<Rightarrow> result)))))"

subsection \<open>Padding to a square\<close>

text \<open>
  \<open>maxSide\<close>, \<open>padLeft\<close>, \<open>padTop\<close>, \<open>padRight\<close> and \<open>padBottom\<close> of \<open>autocropImage\<close>, from
  the width and height of the trimmed image.  \<open>Math.floor(n / 2)\<close> is \<open>n div 2\<close>.
\<close>

definition maxSide :: "int \<Rightarrow> int \<Rightarrow> int" where
  "maxSide width height = max width height"

record padding =
  padLeft :: int
  padTop :: int
  padRight :: int
  padBottom :: int

definition squarePadding :: "int \<Rightarrow> int \<Rightarrow> padding" where
  "squarePadding width height =
     (let side = maxSide width height;
          left = (side - width) div 2;
          top = (side - height) div 2
      in \<lparr> padLeft = left,
           padTop = top,
           padRight = side - width - left,
           padBottom = side - height - top \<rparr>)"

subsection \<open>\<open>autocropImage\<close> and \<open>resizeOnly\<close>\<close>

definition resizeOnly_pad :: "sharp_lib option \<Rightarrow> settings \<Rightarrow> buffer \<Rightarrow> js_error + buffer option" where
  "resizeOnly_pad sharp cfg inputBuffer =
     (case sharp of
        None \<Rightarrow> Inr None
      | Some lib \<Rightarrow>
          (case resizeContainPng lib inputBuffer (targetSize cfg) of
             Inl error \<Rightarrow> Inl error
           | Inr result \<Rightarrow> Inr (Some result)))"

definition autocropTry_pad :: "sharp_lib \<Rightarrow> settings \<Rightarrow> buffer \<Rightarrow> js_error + buffer" where
  "autocropTry_pad lib cfg inputBuffer =
     (let workingBuffer =
            (if removeBackground cfg then removeBackgroundColor (Some lib) cfg inputBuffer
             else inputBuffer)
      in case metadata lib workingBuffer of
           Inl error \<Rightarrow> Inl error
         | Inr md \<Rightarrow>
             if falsy (meta_width md) \<or> falsy (meta_height md)
             then Inl (Error ''Could not read image dimensions'')
             else
               (case trim lib workingBuffer (trimThreshold cfg) of
                  Inl error \<Rightarrow> Inl error
                | Inr trimmed \<Rightarrow>
                    let pad = squarePadding (trimmed_width trimmed) (trimmed_height trimmed);
                        background =
                          (if backgroundColor cfg = ''transparent''
                           then \<lparr> rgba_r = Num 0, rgba_g = Num 0, rgba_b = Num 0,
                                  rgba_alpha = Some 0 \<rparr>
                           else parseColor (backgroundColor cfg))
                    in extendResizePng lib (trimmed_data trimmed)
                         \<lparr> extend_top = padTop pad,
                           extend_bottom = padBottom pad,
                           extend_left = padLeft pad,
                           extend_right = padRight pad,
                           extend_background = background \<rparr>
                         (targetSize cfg)))"

text \<open>
  The \<open>catch\<close> of this variant returns \<open>resizeOnly\<close> when the error's message contains
  \<open>trim\<close> and throws the error again otherwise.
\<close>

definition autocropImage_pad :: "sharp_lib option \<Rightarrow> settings \<Rightarrow> buffer \<Rightarrow> js_error + buffer option" where
  "autocropImage_pad sharp cfg inputBuffer =
     (case sharp of
        None \<Rightarrow> Inr None
      | Some lib \<Rightarrow>
          (case autocropTry_pad lib cfg inputBuffer of
             Inr result \<Rightarrow> Inr (Some result)
           | Inl error \<Rightarrow>
               if sublist ''trim'' (message error)
               then resizeOnly_pad sharp cfg inputBuffer
               else Inl error))"

section \<open>The vault and \<open>processImage\<close>\<close>

text \<open>
  The host's vault is an external collaborator.  It appears as a map from paths to
  files and folders, with a journal of the operations that changed it.
  \<open>getAbstractFileByPath\<close> is the lookup; \<open>createFolder\<close> and \<open>createBinary\<close> reject a
  path that is taken; \<open>readBinary\<close> and \<open>modifyBinary\<close> need a file at the path.
\<close>

record tfile =
  file_path :: string
  file_name :: string

datatype node = File buffer | Folder

datatype vault_op =
  CreateFolder string
| CreateBinary string buffer
| ModifyBinary string buffer

record vault =
  entries :: "string \<rightharpoonup> node"
  journal :: "vault_op list"

definition getAbstractFileByPath :: "vault \<Rightarrow> string \<Rightarrow> node option" where
  "getAbstractFileByPath v p = entries v p"

definition readBinary :: "vault \<Rightarrow> tfile \<Rightarrow> js_error + buffer" where
  "readBinary v file =
     (case entries v (file_path file) of
        Some (File contents) \<Rightarrow> Inr contents
      | _ \<Rightarrow> Inl (Error ''ENOENT: no such file or directory''))"

definition createFolder :: "vault \<Rightarrow> string \<Rightarrow> js_error + vault" where
  "createFolder v p =
     (case entries v p of
        Some _ \<Rightarrow> Inl (Error ''Folder already exists.'')
      | None \<Rightarrow> Inr (v\<lparr> entries := (entries v)(p \<mapsto> Folder),
                        journal := journal v @ [CreateFolder p] \<rparr>))"

definition createBinary :: "vault \<Rightarrow> string \<Rightarrow> buffer \<Rightarrow> js_error + vault" where
  "createBinary v p contents =
     (case entries v p of
        Some _ \<Rightarrow> Inl (Error ''File already exists.'')
      | None \<Rightarrow> Inr (v\<lparr> entries := (entries v)(p \<mapsto> File contents),
                        journal := journal v @ [CreateBinary p contents] \<rparr>))"

definition modifyBinary :: "vault \<Rightarrow> tfile \<Rightarrow> buffer \<Rightarrow> js_error + vault" where
  "modifyBinary v file contents =
     (case entries v (file_path file) of
        Some (File _) \<Rightarrow>
          Inr (v\<lparr> entries := (entries v)(file_path file \<mapsto> File contents),
                  journal := journal v @ [ModifyBinary (file_path file) contents] \<rparr>)
      | _ \<Rightarrow> Inl (Error ''ENOENT: no such file or directory''))"

definition getBackupPath :: "string \<Rightarrow> string" where
  "getBackupPath filePath =
     (let dir = substring filePath 0 (lastIndexOf filePath (CHR ''/''));
          filename = substringFrom filePath (lastIndexOf filePath (CHR ''/'') + 1)
      in dir @ ''/_originals/'' @ filename)"

text \<open>
  The block guarded by \<open>settings.keepBackup\<close>.  The result carries the vault as the
  block left it, also when a call threw.
\<close>

definition backupOriginal :: "vault \<Rightarrow> tfile \<Rightarrow> buffer \<Rightarrow> js_error option \<times> vault" where
  "backupOriginal v file contents =
     (let backupPath = getBackupPath (file_path file) in
      case getAbstractFileByPath v backupPath of
        Some existingBackup \<Rightarrow> (None, v)
      | None \<Rightarrow>
          let backupDir = substring backupPath 0 (lastIndexOf backupPath (CHR ''/'')) in
          (case (case getAbstractFileByPath v backupDir of
                   Some folderExists \<Rightarrow> Inr v
                 | None \<Rightarrow> createFolder v backupDir) of
             Inl error \<Rightarrow> (Some error, v)
           | Inr v1 \<Rightarrow>
               (case createBinary v1 backupPath contents of
                  Inl error \<Rightarrow> (Some error, v1)
                | Inr v2 \<Rightarrow> (None, v2))))"

text \<open>
  The plugin object: the module variable \<open>sharp\<close>, \<open>this.settings\<close>, the set
  \<open>this.processing\<close>, the vault, the notices shown so far, and the pending
  \<open>setTimeout\<close> callbacks that delete a path from \<open>processing\<close>, each with the time in
  milliseconds at which it is due.
\<close>

record plugin =
  sharp :: "sharp_lib option"
  settings :: settings
  processing :: "string set"
  vault :: vault
  notices :: "string list"
  timers :: "(nat \<times> string) list"
  clock :: nat

text \<open>
  \<open>processImage\<close> runs without interruption up to its first \<open>await\<close>: the test of
  \<open>sharp\<close>, the test of \<open>processing\<close> and the insertion into \<open>processing\<close> are one step.
\<close>

datatype admission = Unavailable | Rejected | Admitted

definition processImage_enter :: "plugin \<Rightarrow> tfile \<Rightarrow> admission \<times> plugin" where
  "processImage_enter s file =
     (if sharp s = None
      then (Unavailable, s\<lparr> notices := notices s @ [''Image processing library not available''] \<rparr>)
      else if file_path file \<in> processing s then (Rejected, s)
      else (Admitted, s\<lparr> processing := insert (file_path file) (processing s) \<rparr>))"

text \<open>
  The \<open>try\<close> block.  \<open>autocrop\<close> is \<open>this.autocropImage\<close> of either variant;
  \<open>refresh\<close> is the outcome of \<open>refreshImageCache\<close>, which touches the workspace only
  (\<open>Some\<close> error when it throws).  The result is the value returned or the error thrown,
  with the plugin as the block left it.
\<close>

definition processImage_try ::
  "(sharp_lib option \<Rightarrow> settings \<Rightarrow> buffer \<Rightarrow> js_error + buffer option) \<Rightarrow>
   (tfile \<Rightarrow> js_error option) \<Rightarrow> plugin \<Rightarrow> tfile \<Rightarrow> (js_error + bool) \<times> plugin" where
  "processImage_try autocrop refresh s file =
     (case readBinary (vault s) file of
        Inl error \<Rightarrow> (Inl error, s)
      | Inr contents \<Rightarrow>
          (case (if keepBackup (settings s) then backupOriginal (vault s) file contents
                 else (None, vault s)) of
             (Some error, v1) \<Rightarrow> (Inl error, s\<lparr> vault := v1 \<rparr>)
           | (None, v1) \<Rightarrow>
               (case autocrop (sharp s) (settings s) contents of
                  Inl error \<Rightarrow> (Inl error, s\<lparr> vault := v1 \<rparr>)
                | Inr None \<Rightarrow> (Inr False, s\<lparr> vault := v1 \<rparr>)
                | Inr (Some processedBuffer) \<Rightarrow>
                    (case modifyBinary v1 file processedBuffer of
                       Inl error \<Rightarrow> (Inl error, s\<lparr> vault := v1 \<rparr>)
                     | Inr v2 \<Rightarrow>
                         (case refresh file of
                            Some error \<Rightarrow> (Inl error, s\<lparr> vault := v2 \<rparr>)
                          | None \<Rightarrow>
                              (Inr True,
                               s\<lparr> vault := v2,
                                  notices := notices s @
                                    [''Image autocropped: '' @ file_name file] \<rparr>))))))"

text \<open>
  The \<open>catch\<close> shows the failure and returns false; the \<open>finally\<close> schedules the
  deletion from \<open>processing\<close> 2000 ms later.
\<close>

definition processImage_run ::
  "(sharp_lib option \<Rightarrow> settings \<Rightarrow> buffer \<Rightarrow> js_error + buffer option) \<Rightarrow>
   (tfile \<Rightarrow> js_error option) \<Rightarrow> plugin \<Rightarrow> tfile \<Rightarrow> bool \<times> plugin" where
  "processImage_run autocrop refresh s file =
     (case processImage_try autocrop refresh s file of
        (outcome, s1) \<Rightarrow>
          let (returned, s2) =
                (case outcome of
                   Inr result \<Rightarrow> (result, s1)
                 | Inl error \<Rightarrow>
                     (False,
                      s1\<lparr> notices := notices s1 @
                            [''Failed to process '' @ file_name file @ '': '' @ message error] \<rparr>))
          in (returned, s2\<lparr> timers := timers s2 @ [(clock s2 + 2000, file_path file)] \<rparr>))"

definition processImage ::
  "(sharp_lib option \<Rightarrow> settings \<Rightarrow> buffer \<Rightarrow> js_error + buffer option) \<Rightarrow>
   (tfile \<Rightarrow> js_error option) \<Rightarrow> plugin \<Rightarrow> tfile \<Rightarrow> bool \<times> plugin" where
  "processImage autocrop refresh s file =
     (case processImage_enter s file of
        (Admitted, s1) \<Rightarrow> processImage_run autocrop refresh s1 file
      | (_, s1) \<Rightarrow> (False, s1))"

text \<open>
  Time passing: the clock moves on by \<open>ms\<close> milliseconds and every callback that is due
  by then runs, deleting its path from \<open>processing\<close>.
\<close>

definition elapse :: "nat \<Rightarrow> plugin \<Rightarrow> plugin" where
  "elapse ms s =
     (let t = clock s + ms;
          due = filter (\<lambda>(due_at, p). due_at \<le> t) (timers s)
      in s\<lparr> clock := t,
            processing := processing s - set (map snd due),
            timers := filter (\<lambda>(due_at, p). \<not> due_at \<le> t) (timers s) \<rparr>)"

text \<open>The writes of new contents to the file at a path, read off the journal.\<close>

definition writesTo :: "string \<Rightarrow> vault \<Rightarrow> buffer list" where
  "writesTo p v = [contents. ModifyBinary q contents \<leftarrow> journal v, q = p]"

text \<open>
  The states the plugin can be in, each with the paths of the runs that were admitted and
  have not ended: after loading nothing is in flight and no callback is pending; then
  requests arrive, admitted runs end, and time passes, in any order.
\<close>

inductive reachable ::
  "(sharp_lib option \<Rightarrow> settings \<Rightarrow> buffer \<Rightarrow> js_error + buffer option) \<Rightarrow>
   (tfile \<Rightarrow> js_error option) \<Rightarrow> plugin \<Rightarrow> string list \<Rightarrow> bool"
  for autocrop refresh where
    loaded: "processing s = {} \<Longrightarrow> timers s = [] \<Longrightarrow> reachable autocrop refresh s []"
  | request: "reachable autocrop refresh s running \<Longrightarrow>
      processImage_enter s f = (admitted, s') \<Longrightarrow>
      reachable autocrop refresh s'
        (if admitted = Admitted then file_path f # running else running)"
  | finish: "reachable autocrop refresh s running \<Longrightarrow>
      file_path f \<in> set running \<Longrightarrow>
      processImage_run autocrop refresh s f = (returned, s') \<Longrightarrow>
      reachable autocrop refresh s' (remove1 (file_path f) running)"
  | wait: "reachable autocrop refresh s running \<Longrightarrow>
      reachable autocrop refresh (elapse ms s) running"

section \<open>An instance of the image library\<close>

text \<open>
  A small image library to run the pipelines on concrete inputs.  An encoded image is
  its width, its height (one byte each, not zero) and its RGBA bytes.  The library
  checks its arguments as \<open>sharp\<close> does (a size that is not positive, a crop area
  outside the image or without pixels, an image of one colour given to \<open>trim\<close> are
  rejected) and hands the pixels on as they are.
\<close>

definition stubDecode :: "buffer \<Rightarrow> js_error + raw_image" where
  "stubDecode input =
     (case input of
        w # h # px \<Rightarrow>
          if w \<noteq> 0 \<and> h \<noteq> 0 \<and> length px = unat w * unat h * 4
          then Inr \<lparr> raw_data = px, raw_width = unat w, raw_height = unat h \<rparr>
          else Inl (Error ''Input buffer contains unsupported image format'')
      | _ \<Rightarrow> Inl (Error ''Input buffer contains unsupported image format''))"

definition stubEncode :: "raw_image \<Rightarrow> buffer" where
  "stubEncode raw = of_nat (raw_width raw) # of_nat (raw_height raw) # raw_data raw"

definition stubSized :: "int \<Rightarrow> buffer \<Rightarrow> js_error + buffer" where
  "stubSized target input =
     (if target \<le> 0 then Inl (Error ''Expected positive integer for width'')
      else case stubDecode input of
             Inl error \<Rightarrow> Inl error
           | Inr raw \<Rightarrow> Inr (stubEncode raw))"

definition stubSharp :: sharp_lib where
  "stubSharp =
     \<lparr> toRaw = stubDecode,
       extractResizePng = (\<lambda>raw rg target.
         if target \<le> 0 then Inl (Error ''Expected positive integer for width'')
         else if region_left rg < 0 \<or> region_top rg < 0 \<or>
                 region_width rg \<le> 0 \<or> region_height rg \<le> 0 \<or>
                 region_left rg + region_width rg > int (raw_width raw) \<or>
                 region_top rg + region_height rg > int (raw_height raw)
         then Inl (Error ''extract_area: bad extract area'')
         else Inr (stubEncode raw)),
       toPng = (\<lambda>input.
         case stubDecode input of
           Inl error \<Rightarrow> Inl error
         | Inr raw \<Rightarrow> Inr (stubEncode raw)),
       metadata = (\<lambda>input.
         case stubDecode input of
           Inl error \<Rightarrow> Inl error
         | Inr raw \<Rightarrow>
             Inr \<lparr> meta_width = Some (raw_width raw), meta_height = Some (raw_height raw) \<rparr>),
       trim = (\<lambda>input threshold.
         case stubDecode input of
           Inl error \<Rightarrow> Inl error
         | Inr raw \<Rightarrow>
             if raw_data raw =
                concat (replicate (raw_width raw * raw_height raw) (take 4 (raw_data raw)))
             then Inl (Error ''Unexpected error while trimming. Try to lower the tolerance'')
             else Inr \<lparr> trimmed_data = input,
                        trimmed_width = int (raw_width raw),
                        trimmed_height = int (raw_height raw) \<rparr>),
       extendResizePng = (\<lambda>input ext target. stubSized target input),
       resizeContainPng = (\<lambda>input target. stubSized target input),
       rawToPng = (\<lambda>raw. Inr (stubEncode raw)) \<rparr>"

text \<open>The settings \<open>DEFAULT_SETTINGS\<close> of the padding variant.\<close>

definition DEFAULT_SETTINGS :: settings where
  "DEFAULT_SETTINGS =
     \<lparr> watchedFolder = ''_Assets/Enluminures'',
       targetSize = 200,
       enabled = True,
       processExisting = False,
       trimThreshold = 10,
       backgroundColor = ''transparent'',
       removeBackground = False,
       backgroundTolerance = 30,
       keepBackup = True \<rparr>"

text \<open>The vault after the backup block of \<open>processImage\<close>.\<close>

definition afterBackup :: "plugin \<Rightarrow> tfile \<Rightarrow> buffer \<Rightarrow> vault" where
  "afterBackup s f contents =
     (if keepBackup (settings s) then snd (backupOriginal (vault s) f contents) else vault s)"

section \<open>Images of one colour\<close>

text \<open>The buffer of \<open>n\<close> pixels that all have the colour and alpha given.\<close>

definition solidPixels :: "nat \<Rightarrow> byte \<Rightarrow> byte \<Rightarrow> byte \<Rightarrow> byte \<Rightarrow> buffer" where
  "solidPixels n cr cg cb ca = concat (replicate n [cr, cg, cb, ca])"

section \<open>A plugin to run\<close>

text \<open>
  The plugin after \<open>onload\<close>, with the library loaded, the default settings and
  nothing in flight, over a vault with the given files; and an image file in it.
\<close>

definition loadedPlugin :: "(string \<rightharpoonup> node) \<Rightarrow> plugin" where
  "loadedPlugin files =
     \<lparr> sharp = Some stubSharp,
       settings = DEFAULT_SETTINGS,
       processing = {},
       vault = \<lparr> entries = files, journal = [] \<rparr>,
       notices = [],
       timers = [],
       clock = 0 \<rparr>"

definition imageFile :: tfile where
  "imageFile = \<lparr> file_path = ''Assets/img.png'', file_name = ''img.png'' \<rparr>"

section \<open>Properties of the transparency masker\<close>

lemma buf_at_update_other:
  "i \<noteq> int k \<Longrightarrow> buf_at (ps[k := v]) i = buf_at ps i"
  by (auto simp: buf_at_def nth_list_update)

lemma isBackground_update_alpha:
  assumes "k mod 4 = 3" "m mod 4 = 0"
  shows "isBackground (ps[k := v]) m bg t = isBackground ps m bg t"
proof -
  have "int m \<noteq> int k" "int m + 1 \<noteq> int k" "int m + 2 \<noteq> int k"
    using assms by presburger+
  then show ?thesis
    by (simp add: isBackground_def buf_at_update_other)
qed

lemma maskLoop_length: "length (maskLoop i ps bg t) = length ps"
  by (induction i ps bg t rule: maskLoop.induct) (subst maskLoop.simps, simp)

lemma maskLoop_nth:
  "i mod 4 = 0 \<Longrightarrow> j < length ps \<Longrightarrow>
   maskLoop i ps bg t ! j =
     (if i \<le> j \<and> j mod 4 = 3 \<and> isBackground ps (j - 3) bg t then 0 else ps ! j)"
proof (induction i ps bg t arbitrary: j rule: maskLoop.induct)
  case (1 i pixels bg tolerance)
  let ?ps' = "if isBackground pixels i bg tolerance then pixels[i + 3 := 0] else pixels"
  show ?case
  proof (cases "i < length pixels")
    case False
    then have "maskLoop i pixels bg tolerance = pixels"
      by (subst maskLoop.simps) simp
    with False "1.prems" show ?thesis by simp
  next
    case True
    have len: "j < length ?ps'" using "1.prems" by simp
    have m4: "(i + 4) mod 4 = 0" using "1.prems" by presburger
    have IH: "maskLoop (i + 4) ?ps' bg tolerance ! j =
      (if i + 4 \<le> j \<and> j mod 4 = 3 \<and> isBackground ?ps' (j - 3) bg tolerance then 0 else ?ps' ! j)"
      using "1.IH"[OF True m4 len] .
    have unf: "maskLoop i pixels bg tolerance = maskLoop (i + 4) ?ps' bg tolerance"
      using True by (subst maskLoop.simps) simp
    have bgeq: "j mod 4 = 3 \<Longrightarrow> isBackground ?ps' (j - 3) bg tolerance = isBackground pixels (j - 3) bg tolerance"
    proof -
      assume j3: "j mod 4 = 3"
      have a: "(i + 3) mod 4 = 3" using "1.prems" by presburger
      have b: "(j - 3) mod 4 = 0" using j3 by presburger
      show ?thesis using isBackground_update_alpha[OF a b] by simp
    qed
    show ?thesis
    proof (cases "j mod 4 = 3")
      case j3: True
      show ?thesis
      proof (cases "j = i + 3")
        case True
        then show ?thesis using unf IH bgeq[OF j3] j3 "1.prems" by (simp)
      next
        case False
        have "i \<le> j \<longleftrightarrow> i + 4 \<le> j" using False j3 "1.prems"(1) by presburger
        then show ?thesis using unf IH bgeq[OF j3] j3 False by (simp)
      qed
    next
      case False
      then have "j \<noteq> i + 3" using "1.prems"(1) by presburger
      then show ?thesis using unf IH False by simp
    qed
  qed
qed

lemma mask_length: "length (makeBackgroundTransparent ps bg t) = length ps"
  unfolding makeBackgroundTransparent_def by (rule maskLoop_length)

lemma mask_nth:
  "j < length ps \<Longrightarrow>
   makeBackgroundTransparent ps bg t ! j =
     (if j mod 4 = 3 \<and> isBackground ps (j - 3) bg t then 0 else ps ! j)"
  by (simp add: makeBackgroundTransparent_def maskLoop_nth)

lemma isBackground_same_colours:
  assumes len: "length ps' = length ps"
    and same: "\<And>i. i < length ps \<Longrightarrow> i mod 4 \<noteq> 3 \<Longrightarrow> ps' ! i = ps ! i"
    and m: "m mod 4 = 0"
  shows "isBackground ps' m bg t = isBackground ps m bg t"
proof -
  have "buf_at ps' (int m + int d) = buf_at ps (int m + int d)" if "d < 3" for d
  proof -
    have "(m + d) mod 4 \<noteq> 3" using m that by presburger
    then show ?thesis using len same[of "m + d"]
      by (auto simp: buf_at_def nat_add_distrib)
  qed
  from this[of 0] this[of 1] this[of 2] show ?thesis
    by (simp add: isBackground_def)
qed

lemma isBackground_in_range:
  assumes "m + 2 < length ps"
  shows "isBackground ps m \<lparr> color_r = Num cr, color_g = Num cg, color_b = Num cb \<rparr> t \<longleftrightarrow>
         \<bar>uint (ps ! m) - cr\<bar> \<le> t \<and> \<bar>uint (ps ! (m + 1)) - cg\<bar> \<le> t \<and>
         \<bar>uint (ps ! (m + 2)) - cb\<bar> \<le> t"
  using assms by (simp add: isBackground_def buf_at_def toNumber_def nat_add_distrib)

text \<open>
  Claim C2.  For every buffer, every background colour with integer channels and every
  tolerance, the masker writes 0 into the alpha byte of a pixel exactly when each of the
  three differences \<open>|R - bg.r|\<close>, \<open>|G - bg.g|\<close>, \<open>|B - bg.b|\<close> is at most the
  tolerance (the bound included), leaves the alpha byte of every other pixel as it was,
  and changes no colour byte and not the length of the buffer.
\<close>

theorem makeBackgroundTransparent_masks_exactly:
  "length (makeBackgroundTransparent pixels \<lparr> color_r = Num cr, color_g = Num cg, color_b = Num cb \<rparr> t)
     = length pixels \<and>
   (\<forall>k. 4 * k + 3 < length pixels \<longrightarrow>
      makeBackgroundTransparent pixels \<lparr> color_r = Num cr, color_g = Num cg, color_b = Num cb \<rparr> t
        ! (4 * k + 3) =
      (if \<bar>uint (pixels ! (4 * k)) - cr\<bar> \<le> t \<and>
          \<bar>uint (pixels ! (4 * k + 1)) - cg\<bar> \<le> t \<and>
          \<bar>uint (pixels ! (4 * k + 2)) - cb\<bar> \<le> t
       then 0 else pixels ! (4 * k + 3))) \<and>
   (\<forall>j < length pixels. j mod 4 \<noteq> 3 \<longrightarrow>
      makeBackgroundTransparent pixels \<lparr> color_r = Num cr, color_g = Num cg, color_b = Num cb \<rparr> t ! j
        = pixels ! j)"
proof (intro conjI allI impI)
  show "length (makeBackgroundTransparent pixels \<lparr> color_r = Num cr, color_g = Num cg, color_b = Num cb \<rparr> t)
     = length pixels"
    by (rule mask_length)
next
  fix k assume k: "4 * k + 3 < length pixels"
  have m: "(4 * k + 3) mod 4 = 3" by presburger
  have r: "4 * k + 2 < length pixels" using k by simp
  show "makeBackgroundTransparent pixels \<lparr> color_r = Num cr, color_g = Num cg, color_b = Num cb \<rparr> t
        ! (4 * k + 3) =
      (if \<bar>uint (pixels ! (4 * k)) - cr\<bar> \<le> t \<and>
          \<bar>uint (pixels ! (4 * k + 1)) - cg\<bar> \<le> t \<and>
          \<bar>uint (pixels ! (4 * k + 2)) - cb\<bar> \<le> t
       then 0 else pixels ! (4 * k + 3))"
    using mask_nth[OF k] m isBackground_in_range[OF r] by simp
next
  fix j assume "j < length pixels" "j mod 4 \<noteq> 3"
  then show "makeBackgroundTransparent pixels \<lparr> color_r = Num cr, color_g = Num cg, color_b = Num cb \<rparr> t ! j
        = pixels ! j"
    by (simp add: mask_nth)
qed

theorem makeBackgroundTransparent_masks_exactly_witness:
  "makeBackgroundTransparent [170, 170, 170, 255, 169, 169, 169, 255]
     \<lparr> color_r = Num 200, color_g = Num 200, color_b = Num 200 \<rparr> 30 ! 3 = 0 \<and>
   makeBackgroundTransparent [170, 170, 170, 255, 169, 169, 169, 255]
     \<lparr> color_r = Num 200, color_g = Num 200, color_b = Num 200 \<rparr> 30 ! 7 = 255 \<and>
   makeBackgroundTransparent [170, 170, 170, 255, 169, 169, 169, 255]
     \<lparr> color_r = Num 200, color_g = Num 200, color_b = Num 200 \<rparr> 30 ! 4 = 169"
proof -
  let ?ps = "[170, 170, 170, 255, 169, 169, 169, 255] :: buffer"
  let ?out = "makeBackgroundTransparent ?ps \<lparr> color_r = Num 200, color_g = Num 200, color_b = Num 200 \<rparr> 30"
  note T = makeBackgroundTransparent_masks_exactly[of ?ps 200 200 200 30]
  from T have alpha: "\<forall>k. 4 * k + 3 < length ?ps \<longrightarrow> ?out ! (4 * k + 3) =
      (if \<bar>uint (?ps ! (4 * k)) - 200\<bar> \<le> 30 \<and> \<bar>uint (?ps ! (4 * k + 1)) - 200\<bar> \<le> 30 \<and>
          \<bar>uint (?ps ! (4 * k + 2)) - 200\<bar> \<le> 30 then 0 else ?ps ! (4 * k + 3))"
    by blast
  from T have rest: "\<forall>j < length ?ps. j mod 4 \<noteq> 3 \<longrightarrow> ?out ! j = ?ps ! j"
    by blast
  have "?out ! 3 = 0" using spec[OF alpha, of 0] by simp
  moreover have "?out ! 7 = 255" using spec[OF alpha, of 1] by simp
  moreover have "?out ! 4 = 169" using spec[OF rest, of 4] by simp
  ultimately show ?thesis by blast
qed

text \<open>
  Claim C10.  The masker is idempotent: a second pass with the same background colour
  and tolerance returns the buffer of the first pass.
\<close>

theorem makeBackgroundTransparent_idempotent:
  "makeBackgroundTransparent (makeBackgroundTransparent pixels bg t) bg t =
   makeBackgroundTransparent pixels bg t"
proof (rule nth_equalityI)
  show "length (makeBackgroundTransparent (makeBackgroundTransparent pixels bg t) bg t) =
        length (makeBackgroundTransparent pixels bg t)"
    by (simp add: mask_length)
next
  fix j
  assume "j < length (makeBackgroundTransparent (makeBackgroundTransparent pixels bg t) bg t)"
  then have j: "j < length pixels" by (simp add: mask_length)
  let ?once = "makeBackgroundTransparent pixels bg t"
  have j': "j < length ?once" using j by (simp add: mask_length)
  show "makeBackgroundTransparent ?once bg t ! j = ?once ! j"
  proof (cases "j mod 4 = 3")
    case False
    then show ?thesis using j j' by (simp add: mask_nth)
  next
    case True
    then have m: "(j - 3) mod 4 = 0" by presburger
    have same: "isBackground ?once (j - 3) bg t = isBackground pixels (j - 3) bg t"
      by (rule isBackground_same_colours[OF mask_length _ m]) (simp add: mask_nth)
    show ?thesis using True same mask_nth[OF j', of bg t] mask_nth[OF j, of bg t] by simp
  qed
qed

section \<open>Properties of the bounds finder\<close>

lemma find_upt_Some:
  "find P [0..<n] = Some y \<longleftrightarrow> y < n \<and> P y \<and> (\<forall>z<y. \<not> P z)"
  by (auto simp: find_Some_iff)

lemma find_rev_upt_Some:
  "find P (rev [0..<n]) = Some y \<longleftrightarrow> y < n \<and> P y \<and> (\<forall>z. y < z \<and> z < n \<longrightarrow> \<not> P z)"
proof
  assume "find P (rev [0..<n]) = Some y"
  then obtain i where i: "i < n" "P (rev [0..<n] ! i)" "y = rev [0..<n] ! i"
    "\<forall>j<i. \<not> P (rev [0..<n] ! j)"
    by (auto simp: find_Some_iff)
  have y: "y = n - 1 - i" using i(1,3) by (simp add: rev_nth)
  have "\<not> P z" if "y < z" "z < n" for z
  proof -
    have "n - 1 - z < i" using that y i(1) by arith
    moreover have "rev [0..<n] ! (n - 1 - z) = z" using that by (simp add: rev_nth)
    ultimately show ?thesis using i(4) by metis
  qed
  then show "y < n \<and> P y \<and> (\<forall>z. y < z \<and> z < n \<longrightarrow> \<not> P z)"
    using i y by auto
next
  assume a: "y < n \<and> P y \<and> (\<forall>z. y < z \<and> z < n \<longrightarrow> \<not> P z)"
  let ?i = "n - 1 - y"
  have "?i < length (rev [0..<n])" using a by simp
  moreover have "rev [0..<n] ! ?i = y" using a by (simp add: rev_nth)
  moreover have "\<not> P (rev [0..<n] ! j)" if "j < ?i" for j
  proof -
    have "rev [0..<n] ! j = n - 1 - j" using that a by (simp add: rev_nth)
    moreover have "y < n - 1 - j" "n - 1 - j < n" using that a by arith+
    ultimately show ?thesis using a by simp
  qed
  ultimately show "find P (rev [0..<n]) = Some y"
    using a by (auto simp: find_Some_iff intro!: exI[of _ ?i])
qed

lemma pixel_index_in_range:
  fixes x y width height :: nat
  assumes "x < width" "y < height"
  shows "(y * width + x) * 4 + 3 < width * height * 4"
proof -
  have "y * width + x < y * width + width" using assms by simp
  also have "\<dots> = (y + 1) * width" by simp
  also have "\<dots> \<le> height * width" using assms by (intro mult_le_mono1) simp
  finally show ?thesis by (simp add: mult.commute)
qed

lemma isContent_alpha:
  assumes "length pixels = width * height * 4" "x < width" "y < height"
  shows "isContent pixels width threshold x y \<longleftrightarrow> alphaAt pixels width x y > threshold"
proof -
  have "(y * width + x) * 4 + 3 < length pixels"
    using pixel_index_in_range[OF assms(2,3)] assms(1) by simp
  moreover have "(int y * int width + int x) * 4 + 3 = int ((y * width + x) * 4 + 3)"
    by simp
  ultimately show ?thesis
    unfolding isContent_def alphaAt_def buf_at_def toNumber_def
    by (simp del: of_nat_add of_nat_mult)
qed

lemma rowHasContent_iff:
  "rowHasContent pixels width threshold y \<longleftrightarrow> (\<exists>x<width. isContent pixels width threshold x y)"
  by (auto simp: rowHasContent_def list_ex_iff)

lemma colHasContent_iff:
  "colHasContent pixels width height threshold x \<longleftrightarrow> (\<exists>y<height. isContent pixels width threshold x y)"
  by (auto simp: colHasContent_def list_ex_iff)

lemma first_edge:
  fixes P :: "nat \<Rightarrow> bool" and n :: nat
  defines "e \<equiv> (case find P [0..<n] of Some y \<Rightarrow> y | None \<Rightarrow> 0)"
  shows "\<forall>y<n. P y \<longrightarrow> e \<le> y"
    and "(\<exists>y<n. P y) \<Longrightarrow> P e \<and> e < n"
    and "\<not> (\<exists>y<n. P y) \<Longrightarrow> e = 0"
proof -
  consider (none) "find P [0..<n] = None" "e = 0" "\<forall>y<n. \<not> P y"
    | (some) a where "find P [0..<n] = Some a" "e = a" "a < n" "P a" "\<forall>z<a. \<not> P z"
  proof (cases "find P [0..<n]")
    case None
    moreover from None have "e = 0" by (simp add: e_def)
    moreover from None have "\<forall>y<n. \<not> P y" by (simp add: find_None_iff)
    ultimately show ?thesis using none by blast
  next
    case (Some a)
    moreover from Some have "e = a" by (simp add: e_def)
    moreover have "a < n \<and> P a \<and> (\<forall>z<a. \<not> P z)"
      by (rule find_upt_Some[THEN iffD1, OF Some])
    ultimately show ?thesis using some by blast
  qed
  note cases = this
  show "\<forall>y<n. P y \<longrightarrow> e \<le> y"
    using cases by (cases; metis not_le_imp_less)
  show "P e \<and> e < n" if "\<exists>y<n. P y"
    using cases that by (cases; blast)
  show "e = 0" if "\<not> (\<exists>y<n. P y)"
    using cases that by (cases; blast)
qed

lemma last_edge:
  fixes P :: "nat \<Rightarrow> bool" and n :: nat
  defines "e \<equiv> (case find P (rev [0..<n]) of Some y \<Rightarrow> y + 1 | None \<Rightarrow> n)"
  shows "e \<le> n"
    and "\<forall>y<n. P y \<longrightarrow> y < e"
    and "(\<exists>y<n. P y) \<Longrightarrow> 0 < e \<and> P (e - 1)"
    and "\<not> (\<exists>y<n. P y) \<Longrightarrow> e = n"
proof -
  consider (none) "find P (rev [0..<n]) = None" "e = n" "\<forall>y<n. \<not> P y"
    | (some) a where "find P (rev [0..<n]) = Some a" "e = a + 1" "a < n" "P a"
        "\<forall>z. a < z \<and> z < n \<longrightarrow> \<not> P z"
  proof (cases "find P (rev [0..<n])")
    case None
    moreover from None have "e = n" by (simp add: e_def)
    moreover from None have "\<forall>y<n. \<not> P y" by (simp add: find_None_iff)
    ultimately show ?thesis using none by blast
  next
    case (Some a)
    moreover from Some have "e = a + 1" by (simp add: e_def)
    moreover have "a < n \<and> P a \<and> (\<forall>z. a < z \<and> z < n \<longrightarrow> \<not> P z)"
      by (rule find_rev_upt_Some[THEN iffD1, OF Some])
    ultimately show ?thesis using some by blast
  qed
  note cases = this
  show "e \<le> n"
    using cases by cases simp_all
  show "\<forall>y<n. P y \<longrightarrow> y < e"
  proof (intro allI impI)
    fix y assume y: "y < n" "P y"
    from cases show "y < e"
    proof cases
      case none
      then show ?thesis using y by blast
    next
      case (some a)
      then have "\<not> a < y" using y by blast
      then show ?thesis using some(2) by simp
    qed
  qed
  show "0 < e \<and> P (e - 1)" if "\<exists>y<n. P y"
    using cases that by cases auto
  show "e = n" if "\<not> (\<exists>y<n. P y)"
    using cases that by cases auto
qed

text \<open>
  Claim C3.  For an image of positive width and height whose buffer holds four bytes for
  each pixel, and for every threshold: the box that \<open>findContentBounds\<close> returns satisfies
  \<open>top < bottom \<le> height\<close> and \<open>left < right \<le> width\<close>; it contains every pixel whose
  alpha exceeds the threshold; when there is such a pixel, every box that contains them
  all contains the returned box; and when there is none, the box is the full image.
\<close>

theorem findContentBounds_tight_and_valid:
  assumes wf: "length pixels = width * height * 4" and w: "0 < width" and h: "0 < height"
  shows
    "let b = findContentBounds pixels width height threshold;
         content = (\<lambda>x y. x < width \<and> y < height \<and> alphaAt pixels width x y > threshold)
     in (bounds_top b < bounds_bottom b \<and> bounds_bottom b \<le> height \<and>
         bounds_left b < bounds_right b \<and> bounds_right b \<le> width) \<and>
        (\<forall>x y. content x y \<longrightarrow>
           bounds_top b \<le> y \<and> y < bounds_bottom b \<and> bounds_left b \<le> x \<and> x < bounds_right b) \<and>
        ((\<exists>x y. content x y) \<longrightarrow>
           (\<forall>t' b' l' r'.
              (\<forall>x y. content x y \<longrightarrow> t' \<le> y \<and> y < b' \<and> l' \<le> x \<and> x < r') \<longrightarrow>
              t' \<le> bounds_top b \<and> bounds_bottom b \<le> b' \<and>
              l' \<le> bounds_left b \<and> bounds_right b \<le> r')) \<and>
        (\<not> (\<exists>x y. content x y) \<longrightarrow>
           b = \<lparr> bounds_top = 0, bounds_bottom = height, bounds_left = 0, bounds_right = width \<rparr>)"
proof -
  define content where
    "content = (\<lambda>x y. x < width \<and> y < height \<and> alphaAt pixels width x y > threshold)"
  define R where "R = rowHasContent pixels width threshold"
  define C where "C = colHasContent pixels width height threshold"
  define b where "b = findContentBounds pixels width height threshold"
  have R: "R y \<longleftrightarrow> (\<exists>x. content x y)" if "y < height" for y
    using that isContent_alpha[OF wf _ that]
    by (auto simp: R_def rowHasContent_iff content_def)
  have C: "C x \<longleftrightarrow> (\<exists>y. content x y)" if "x < width" for x
    using that isContent_alpha[OF wf that]
    by (auto simp: C_def colHasContent_iff content_def)
  have tp: "bounds_top b = (case find R [0..<height] of Some y \<Rightarrow> y | None \<Rightarrow> 0)"
    and bt: "bounds_bottom b = (case find R (rev [0..<height]) of Some y \<Rightarrow> y + 1 | None \<Rightarrow> height)"
    and lf: "bounds_left b = (case find C [0..<width] of Some x \<Rightarrow> x | None \<Rightarrow> 0)"
    and rt: "bounds_right b = (case find C (rev [0..<width]) of Some x \<Rightarrow> x + 1 | None \<Rightarrow> width)"
    by (simp_all add: b_def findContentBounds_def R_def C_def)
  note T = first_edge[of height R, folded tp]
  note B = last_edge[of height R, folded bt]
  note L = first_edge[of width C, folded lf]
  note Rt = last_edge[of width C, folded rt]
  have dims: "x < width \<and> y < height" if "content x y" for x y
    using that by (simp add: content_def)
  have rows: "(\<exists>y<height. R y) \<longleftrightarrow> (\<exists>x y. content x y)"
    using R dims by blast
  have cols: "(\<exists>x<width. C x) \<longleftrightarrow> (\<exists>x y. content x y)"
    using C dims by blast
  have inside: "bounds_top b \<le> y \<and> y < bounds_bottom b \<and> bounds_left b \<le> x \<and> x < bounds_right b"
    if c: "content x y" for x y
  proof -
    have xy: "x < width" "y < height" using c by (simp_all add: content_def)
    have "R y" using R[OF xy(2)] c by blast
    moreover have "C x" using C[OF xy(1)] c by blast
    ultimately show ?thesis using T(1) B(2) L(1) Rt(2) xy by blast
  qed
  have valid: "bounds_top b < bounds_bottom b \<and> bounds_bottom b \<le> height \<and>
         bounds_left b < bounds_right b \<and> bounds_right b \<le> width"
  proof (cases "\<exists>x y. content x y")
    case True
    then obtain x y where c: "content x y" by blast
    from inside[OF c] B(1) Rt(1) show ?thesis by simp
  next
    case False
    then have "bounds_top b = 0" "bounds_bottom b = height" "bounds_left b = 0" "bounds_right b = width"
      using T(3) B(4) L(3) Rt(4) rows cols by blast+
    then show ?thesis using w h by simp
  qed
  have smallest: "t' \<le> bounds_top b \<and> bounds_bottom b \<le> b' \<and> l' \<le> bounds_left b \<and> bounds_right b \<le> r'"
    if ex: "\<exists>x y. content x y"
      and box: "\<forall>x y. content x y \<longrightarrow> t' \<le> y \<and> y < b' \<and> l' \<le> x \<and> x < r'"
    for t' b' l' r'
  proof -
    have t: "R (bounds_top b)" "bounds_top b < height" using T(2) rows ex by blast+
    have bb: "0 < bounds_bottom b" "R (bounds_bottom b - 1)" using B(3) rows ex by blast+
    have l: "C (bounds_left b)" "bounds_left b < width" using L(2) cols ex by blast+
    have r: "0 < bounds_right b" "C (bounds_right b - 1)" using Rt(3) cols ex by blast+
    have bh: "bounds_bottom b - 1 < height" using bb(1) B(1) by simp
    have rw: "bounds_right b - 1 < width" using r(1) Rt(1) by simp
    obtain x1 where "content x1 (bounds_top b)" using R[OF t(2)] t(1) by blast
    then have 1: "t' \<le> bounds_top b" using box by blast
    obtain x2 where "content x2 (bounds_bottom b - 1)" using R[OF bh] bb(2) by blast
    then have 2: "bounds_bottom b \<le> b'" using box bb(1) by fastforce
    obtain y1 where "content (bounds_left b) y1" using C[OF l(2)] l(1) by blast
    then have 3: "l' \<le> bounds_left b" using box by blast
    obtain y2 where "content (bounds_right b - 1) y2" using C[OF rw] r(2) by blast
    then have 4: "bounds_right b \<le> r'" using box r(1) by fastforce
    from 1 2 3 4 show ?thesis by simp
  qed
  have none: "b = \<lparr> bounds_top = 0, bounds_bottom = height, bounds_left = 0, bounds_right = width \<rparr>"
    if "\<not> (\<exists>x y. content x y)"
  proof -
    have "bounds_top b = 0" "bounds_bottom b = height" "bounds_left b = 0" "bounds_right b = width"
      using T(3) B(4) L(3) Rt(4) rows cols that by blast+
    then show ?thesis by simp
  qed
  show ?thesis
    unfolding Let_def b_def[symmetric] content_def[symmetric]
    using valid inside smallest none by blast
qed

theorem findContentBounds_tight_and_valid_witness:
  "length [0, 0, 0, 0, 0, 0, 0, 0, 0, 0, 0, 0, 0, 0, 0, 0, 0, 0, 0, 11, 0, 0, 0, 0 :: byte] = 3 * 2 * 4 \<and>
   (let b = findContentBounds
              [0, 0, 0, 0, 0, 0, 0, 0, 0, 0, 0, 0, 0, 0, 0, 0, 0, 0, 0, 11, 0, 0, 0, 0] 3 2 10
    in bounds_top b < bounds_bottom b \<and> bounds_bottom b \<le> 2 \<and>
       bounds_left b < bounds_right b \<and> bounds_right b \<le> 3)"
proof -
  let ?ps = "[0, 0, 0, 0, 0, 0, 0, 0, 0, 0, 0, 0, 0, 0, 0, 0, 0, 0, 0, 11, 0, 0, 0, 0] :: buffer"
  have len: "length ?ps = 3 * 2 * 4" by simp
  have w: "0 < (3 :: nat)" and h: "0 < (2 :: nat)" by simp_all
  note T = findContentBounds_tight_and_valid[OF len w h, of 10, unfolded Let_def]
  show ?thesis
    unfolding Let_def using len T[THEN conjunct1] by blast
qed

section \<open>Properties of the background detector\<close>

lemma samplePixel_outside:
  assumes "y * int width + x < 0"
  shows "samplePixel pixels width (x, y) (sr, sg, sb, count) = (NaN, NaN, NaN, count + 1)"
proof -
  let ?idx = "(y * int width + x) * 4"
  have "?idx < 0" "?idx + 1 < 0" "?idx + 2 < 0" "?idx + 3 < 0" using assms by simp_all
  then have "buf_at pixels ?idx = None" "buf_at pixels (?idx + 1) = None"
    "buf_at pixels (?idx + 2) = None" "buf_at pixels (?idx + 3) = None"
    by (simp_all add: buf_at_def)
  then show ?thesis
    by (cases sr; cases sg; cases sb) (simp_all add: samplePixel_def toNumber_def)
qed

lemma samplePixel_NaN:
  "\<exists>count'. samplePixel pixels width xy (NaN, NaN, NaN, count) = (NaN, NaN, NaN, count') \<and> count \<le> count'"
  by (cases xy) (simp add: samplePixel_def Let_def)

lemma fold_samplePixel_NaN:
  "\<exists>count'. fold (samplePixel pixels width) xs (NaN, NaN, NaN, count) = (NaN, NaN, NaN, count') \<and> count \<le> count'"
proof (induction xs arbitrary: count)
  case Nil
  then show ?case by simp
next
  case (Cons xy xs)
  obtain c1 where c1: "samplePixel pixels width xy (NaN, NaN, NaN, count) = (NaN, NaN, NaN, c1)" "count \<le> c1"
    using samplePixel_NaN by blast
  obtain c2 where "fold (samplePixel pixels width) xs (NaN, NaN, NaN, c1) = (NaN, NaN, NaN, c2)" "c1 \<le> c2"
    using Cons.IH by blast
  then show ?case using c1 by auto
qed

lemma fold_samplePixel_outside:
  assumes "(x, y) \<in> set xs" "y * int width + x < 0"
  shows "\<exists>count'. fold (samplePixel pixels width) xs acc = (NaN, NaN, NaN, count') \<and> 0 < count'"
proof -
  obtain as bs where xs: "xs = as @ (x, y) # bs" using assms(1) by (meson split_list)
  obtain sr sg sb c where acc': "fold (samplePixel pixels width) as acc = (sr, sg, sb, c)"
    by (metis prod_cases4)
  have "fold (samplePixel pixels width) xs acc =
        fold (samplePixel pixels width) bs (NaN, NaN, NaN, c + 1)"
    by (simp add: xs acc' samplePixel_outside[OF assms(2)])
  moreover obtain c' where "fold (samplePixel pixels width) bs (NaN, NaN, NaN, c + 1) = (NaN, NaN, NaN, c')"
    "c + 1 \<le> c'"
    using fold_samplePixel_NaN by blast
  ultimately show ?thesis by auto
qed

lemma in_corner_grid:
  assumes "(cx, cy) \<in> set cs" "dy \<in> set ys" "dx \<in> set xs"
  shows "(cx + int dx, cy + int dy) \<in>
         set [(cx + int dx, cy + int dy). (cx, cy) \<leftarrow> cs, dy \<leftarrow> ys, dx \<leftarrow> xs]"
  using assms by fastforce

lemma cornerSamples_narrow:
  assumes "width < 20" "0 < height"
  shows "(int width - 20, 0) \<in> set (cornerSamples width height)"
proof -
  have c: "(int width - 20, 0) \<in> set (corners width height)"
    by (simp add: corners_def sampleSize_def)
  have z: "(0::nat) \<in> set [0..<sampleSize]" by (simp add: sampleSize_def)
  have "(int width - 20 + int 0, 0 + int 0) \<in>
    set [(cx + int dx, cy + int dy).
          (cx, cy) \<leftarrow> corners width height, dy \<leftarrow> [0..<sampleSize], dx \<leftarrow> [0..<sampleSize]]"
    by (rule in_corner_grid[OF c z z])
  then show ?thesis using assms by (simp add: cornerSamples_def)
qed

lemma cornerSamples_low:
  assumes "height < 20" "0 < width"
  shows "(0, int height - 20) \<in> set (cornerSamples width height)"
proof -
  have c: "(0, int height - 20) \<in> set (corners width height)"
    by (simp add: corners_def sampleSize_def)
  have z: "(0::nat) \<in> set [0..<sampleSize]" by (simp add: sampleSize_def)
  have "(0 + int 0, int height - 20 + int 0) \<in>
    set [(cx + int dx, cy + int dy).
          (cx, cy) \<leftarrow> corners width height, dy \<leftarrow> [0..<sampleSize], dx \<leftarrow> [0..<sampleSize]]"
    by (rule in_corner_grid[OF c z z])
  then show ?thesis using assms by (simp add: cornerSamples_def)
qed

lemma detectBackgroundColor_small_image:
  assumes "0 < width" "0 < height" "width < 20 \<or> height < 20"
  shows "detectBackgroundColor pixels width height =
         Some \<lparr> color_r = NaN, color_g = NaN, color_b = NaN \<rparr>"
proof -
  obtain x y where xy: "(x, y) \<in> set (cornerSamples width height)" "y * int width + x < 0"
  proof (cases "width < 20")
    case True
    then show ?thesis using cornerSamples_narrow[OF True assms(2)] that[of "int width - 20" 0] by simp
  next
    case False
    then have h: "height < 20" using assms(3) by simp
    have "(int height - 20) * int width + 0 < 0"
      using h assms(1) by (simp add: mult_less_0_iff)
    then show ?thesis using cornerSamples_low[OF h assms(1)] that[of 0 "int height - 20"] by simp
  qed
  obtain c1 where c1: "fold (samplePixel pixels width) (cornerSamples width height) (Num 0, Num 0, Num 0, 0)
      = (NaN, NaN, NaN, c1)" "0 < c1"
    using fold_samplePixel_outside[OF xy] by blast
  obtain c2 where c2: "fold (samplePixel pixels width) (edgeSamples width height) (NaN, NaN, NaN, c1)
      = (NaN, NaN, NaN, c2)" "c1 \<le> c2"
    using fold_samplePixel_NaN by blast
  show ?thesis
    using c1 c2 by (simp add: detectBackgroundColor_def Let_def)
qed

text \<open>
  Claim C4, at an opaque red image of 10 by 10 pixels.  The corner loops reach the
  coordinate \<open>(-10, 0)\<close>, whose index \<open>-40\<close> lies before the buffer; the read is
  \<open>undefined\<close>, the sums become \<open>NaN\<close>, and the detector returns the colour
  \<open>(NaN, NaN, NaN)\<close>, not the mean \<open>(255, 0, 0)\<close> of the sampled pixels.
\<close>

theorem detectBackgroundColor_small_image_NaN:
  "(- 10, 0) \<in> set (cornerSamples 10 10) \<and>
   buf_at (concat (replicate 100 [255, 0, 0, 255])) ((0 * int 10 + (- 10)) * 4 + 3) = None \<and>
   detectBackgroundColor (concat (replicate 100 [255, 0, 0, 255])) 10 10 =
     Some \<lparr> color_r = NaN, color_g = NaN, color_b = NaN \<rparr>"
proof -
  have "(int 10 - 20, 0) \<in> set (cornerSamples 10 10)"
    by (rule cornerSamples_narrow) simp_all
  then have "(- 10, 0) \<in> set (cornerSamples 10 10)" by simp
  moreover have "buf_at (concat (replicate 100 [255, 0, 0, 255])) ((0 * int 10 + (- 10)) * 4 + 3) = None"
    by (simp add: buf_at_def)
  moreover have "detectBackgroundColor (concat (replicate 100 [255, 0, 0, 255])) 10 10 =
     Some \<lparr> color_r = NaN, color_g = NaN, color_b = NaN \<rparr>"
    by (rule detectBackgroundColor_small_image) simp_all
  ultimately show ?thesis by blast
qed

section \<open>Properties of the padding\<close>

lemma floor_half: "\<lfloor>(of_int a :: rat) / 2\<rfloor> = a div 2"
  using floor_divide_of_int_eq[of a 2, where ?'a = rat] by simp

text \<open>
  The \<open>extend\<close> options that \<open>autocropImage\<close> hands to the library are the four
  numbers of \<open>squarePadding\<close>.
\<close>

lemma autocropTry_pad_extend:
  assumes "metadata lib wb = Inr md" "\<not> falsy (meta_width md)" "\<not> falsy (meta_height md)"
    and "trim lib wb (trimThreshold cfg) = Inr trimmed"
    and "wb = (if removeBackground cfg then removeBackgroundColor (Some lib) cfg input else input)"
  shows "autocropTry_pad lib cfg input =
         extendResizePng lib (trimmed_data trimmed)
           \<lparr> extend_top = padTop (squarePadding (trimmed_width trimmed) (trimmed_height trimmed)),
             extend_bottom = padBottom (squarePadding (trimmed_width trimmed) (trimmed_height trimmed)),
             extend_left = padLeft (squarePadding (trimmed_width trimmed) (trimmed_height trimmed)),
             extend_right = padRight (squarePadding (trimmed_width trimmed) (trimmed_height trimmed)),
             extend_background =
               (if backgroundColor cfg = ''transparent''
                then \<lparr> rgba_r = Num 0, rgba_g = Num 0, rgba_b = Num 0, rgba_alpha = Some 0 \<rparr>
                else parseColor (backgroundColor cfg)) \<rparr>
           (targetSize cfg)"
  using assms unfolding autocropTry_pad_def by (simp add: Let_def)

text \<open>
  Claim C6.  When the trimmed image has width \<open>w\<close> and height \<open>h\<close>, with
  \<open>side = max w h\<close>, \<open>autocropImage\<close> of the padding variant calls \<open>extend\<close> with
  \<open>left = floor ((side - w) / 2)\<close>, \<open>top = floor ((side - h) / 2)\<close>,
  \<open>right = side - w - left\<close> and \<open>bottom = side - h - top\<close>, on the trimmed data, and
  returns what the library makes of it; when \<open>side - w\<close> (\<open>side - h\<close>) is odd, the right
  (bottom) padding is one pixel more than the left (top) padding, and when it is even the
  two are equal.
\<close>

theorem autocropTry_pad_pads_to_square:
  assumes "metadata lib wb = Inr md" "\<not> falsy (meta_width md)" "\<not> falsy (meta_height md)"
    and "trim lib wb (trimThreshold cfg) = Inr trimmed"
    and "wb = (if removeBackground cfg then removeBackgroundColor (Some lib) cfg input else input)"
  shows
    "let w = trimmed_width trimmed;
         h = trimmed_height trimmed;
         side = max w h;
         leftPad = \<lfloor>(of_int (side - w) :: rat) / 2\<rfloor>;
         topPad = \<lfloor>(of_int (side - h) :: rat) / 2\<rfloor>;
         rightPad = side - w - leftPad;
         bottomPad = side - h - topPad
     in autocropTry_pad lib cfg input =
          extendResizePng lib (trimmed_data trimmed)
            \<lparr> extend_top = topPad,
              extend_bottom = bottomPad,
              extend_left = leftPad,
              extend_right = rightPad,
              extend_background =
                (if backgroundColor cfg = ''transparent''
                 then \<lparr> rgba_r = Num 0, rgba_g = Num 0, rgba_b = Num 0, rgba_alpha = Some 0 \<rparr>
                 else parseColor (backgroundColor cfg)) \<rparr>
            (targetSize cfg) \<and>
        (odd (side - w) \<longrightarrow> rightPad = leftPad + 1) \<and>
        (even (side - w) \<longrightarrow> rightPad = leftPad) \<and>
        (odd (side - h) \<longrightarrow> bottomPad = topPad + 1) \<and>
        (even (side - h) \<longrightarrow> bottomPad = topPad)"
proof -
  have parity: "(odd a \<longrightarrow> a - a div 2 = a div 2 + 1) \<and> (even a \<longrightarrow> a - a div 2 = a div 2)"
    for a :: int
    by presburger
  show ?thesis
    unfolding Let_def floor_half autocropTry_pad_extend[OF assms]
    using parity[of "max (trimmed_width trimmed) (trimmed_height trimmed) - trimmed_width trimmed"]
      parity[of "max (trimmed_width trimmed) (trimmed_height trimmed) - trimmed_height trimmed"]
    by (simp add: squarePadding_def maxSide_def Let_def)
qed

text \<open>
  Two runs with a library that returns the \<open>extend\<close> options it was given (left, top,
  right, bottom): an image of 1 by 4 pixels and an image of 4 by 1 pixels.
\<close>

theorem autocropTry_pad_pads_to_square_witness:
  "autocropTry_pad
     (stubSharp\<lparr> extendResizePng := \<lambda>input ext target.
        Inr [of_int (extend_left ext), of_int (extend_top ext),
             of_int (extend_right ext), of_int (extend_bottom ext)] \<rparr>)
     DEFAULT_SETTINGS [1, 4, 255, 0, 0, 255, 0, 255, 0, 255, 0, 255, 0, 255, 0, 255, 0, 255] =
     Inr [1, 0, 2, 0] \<and>
   autocropTry_pad
     (stubSharp\<lparr> extendResizePng := \<lambda>input ext target.
        Inr [of_int (extend_left ext), of_int (extend_top ext),
             of_int (extend_right ext), of_int (extend_bottom ext)] \<rparr>)
     DEFAULT_SETTINGS [4, 1, 255, 0, 0, 255, 0, 255, 0, 255, 0, 255, 0, 255, 0, 255, 0, 255] =
     Inr [0, 1, 0, 2]"
proof -
  let ?lib = "stubSharp\<lparr> extendResizePng := \<lambda>input ext target.
        Inr [of_int (extend_left ext), of_int (extend_top ext),
             of_int (extend_right ext), of_int (extend_bottom ext)] \<rparr>"
  let ?tall = "[1, 4, 255, 0, 0, 255, 0, 255, 0, 255, 0, 255, 0, 255, 0, 255, 0, 255] :: buffer"
  let ?wide = "[4, 1, 255, 0, 0, 255, 0, 255, 0, 255, 0, 255, 0, 255, 0, 255, 0, 255] :: buffer"
  have cfg: "\<not> removeBackground DEFAULT_SETTINGS" "trimThreshold DEFAULT_SETTINGS = 10"
    "backgroundColor DEFAULT_SETTINGS = ''transparent''" "targetSize DEFAULT_SETTINGS = 200"
    by (simp_all add: DEFAULT_SETTINGS_def)
  have wb: "b = (if removeBackground DEFAULT_SETTINGS
                 then removeBackgroundColor (Some ?lib) DEFAULT_SETTINGS b else b)" for b
    by (simp add: cfg)
  have rep: "replicate 4 x = [x, x, x, x]" for x :: "byte list"
    by (simp add: numeral_eq_Suc)
  have md1: "metadata ?lib ?tall = Inr \<lparr> meta_width = Some 1, meta_height = Some 4 \<rparr>"
    by (simp add: stubSharp_def stubDecode_def)
  have tr1: "trim ?lib ?tall (trimThreshold DEFAULT_SETTINGS) =
             Inr \<lparr> trimmed_data = ?tall, trimmed_width = 1, trimmed_height = 4 \<rparr>"
    by (simp add: stubSharp_def stubDecode_def rep)
  have md2: "metadata ?lib ?wide = Inr \<lparr> meta_width = Some 4, meta_height = Some 1 \<rparr>"
    by (simp add: stubSharp_def stubDecode_def)
  have tr2: "trim ?lib ?wide (trimThreshold DEFAULT_SETTINGS) =
             Inr \<lparr> trimmed_data = ?wide, trimmed_width = 4, trimmed_height = 1 \<rparr>"
    by (simp add: stubSharp_def stubDecode_def rep)
  note A = autocropTry_pad_pads_to_square[OF md1 _ _ tr1 wb, unfolded Let_def]
  note B = autocropTry_pad_pads_to_square[OF md2 _ _ tr2 wb, unfolded Let_def]
  have 1: "autocropTry_pad ?lib DEFAULT_SETTINGS ?tall = Inr [1, 0, 2, 0]"
    using A by (simp add: falsy_def)
  have 2: "autocropTry_pad ?lib DEFAULT_SETTINGS ?wide = Inr [0, 1, 0, 2]"
    using B by (simp add: falsy_def)
  from 1 2 show ?thesis by blast
qed

section \<open>Properties of \<open>processImage\<close>\<close>

lemma lastIndexOf_bounds: "- 1 \<le> lastIndexOf s c \<and> lastIndexOf s c < int (length s)"
proof (cases "find (\<lambda>i. s ! i = c) (rev [0..<length s])")
  case None
  then show ?thesis by (simp add: lastIndexOf_def)
next
  case (Some i)
  then have "i < length s" using find_rev_upt_Some[THEN iffD1, OF Some] by blast
  then show ?thesis using Some by (simp add: lastIndexOf_def)
qed

lemma length_substring_prefix:
  assumes "k < int (length s)"
  shows "length (substring s 0 k) = nat k"
  using assms by (simp add: substring_def Let_def min_def max_def)

lemma length_substringFrom:
  assumes "0 \<le> k" "k \<le> int (length s)"
  shows "length (substringFrom s k) = length s - nat k"
  using assms by (simp add: substringFrom_def substring_def Let_def min_def max_def)

lemma length_getBackupPath: "length (getBackupPath p) \<ge> length p + 11"
proof -
  let ?k = "lastIndexOf p (CHR ''/'')"
  have b: "- 1 \<le> ?k" "?k < int (length p)" using lastIndexOf_bounds by blast+
  have "length (substring p 0 ?k) = nat ?k" using b by (simp add: length_substring_prefix)
  moreover have "length (substringFrom p (?k + 1)) = length p - nat (?k + 1)"
    using b by (intro length_substringFrom) simp_all
  ultimately have "length (getBackupPath p) = nat ?k + 12 + (length p - nat (?k + 1))"
    by (simp add: getBackupPath_def Let_def)
  then show ?thesis using b by (auto simp: nat_add_distrib)
qed

lemma getBackupPath_neq: "getBackupPath p \<noteq> p"
  using length_getBackupPath[of p] by (metis add_le_same_cancel1 not_numeral_le_zero)

lemma backupDir_neq:
  "substring (getBackupPath p) 0 (lastIndexOf (getBackupPath p) (CHR ''/'')) \<noteq> getBackupPath p"
proof -
  let ?bp = "getBackupPath p"
  let ?k = "lastIndexOf ?bp (CHR ''/'')"
  have b: "?k < int (length ?bp)" using lastIndexOf_bounds by blast
  have "length (substring ?bp 0 ?k) = nat ?k" using b by (simp add: length_substring_prefix)
  moreover have "0 < length ?bp" using length_getBackupPath[of p] by linarith
  ultimately have "length (substring ?bp 0 ?k) < length ?bp" using b by linarith
  then show ?thesis by (metis less_irrefl)
qed

lemma writesTo_append:
  "writesTo p (v\<lparr> journal := journal v @ [op] \<rparr>) =
   writesTo p v @ (case op of ModifyBinary q c \<Rightarrow> if q = p then [c] else [] | _ \<Rightarrow> [])"
  by (cases op) (simp_all add: writesTo_def)

lemma writesTo_entries_update [simp]:
  "writesTo p (v\<lparr> entries := e \<rparr>) = writesTo p v"
  by (simp add: writesTo_def)

lemma writesTo_modify:
  "writesTo p (v\<lparr> entries := e, journal := journal v @ [ModifyBinary q c] \<rparr>) =
   writesTo p v @ (if q = p then [c] else [])"
  by (simp add: writesTo_def)

lemma backupOriginal_no_error: "fst (backupOriginal v f contents) = None"
  using backupDir_neq[of "file_path f"]
  by (auto simp: backupOriginal_def Let_def getAbstractFileByPath_def createFolder_def
      createBinary_def split: option.splits sum.splits)

lemma backupOriginal_keeps:
  assumes "entries v p = Some n"
  shows "entries (snd (backupOriginal v f contents)) p = Some n"
  using assms backupDir_neq[of "file_path f"]
  by (auto simp: backupOriginal_def Let_def getAbstractFileByPath_def createFolder_def
      createBinary_def split: option.splits sum.splits)

lemma backupOriginal_backup:
  "entries (snd (backupOriginal v f contents)) (getBackupPath (file_path f)) =
   (case entries v (getBackupPath (file_path f)) of
      None \<Rightarrow> Some (File contents)
    | Some n \<Rightarrow> Some n)"
  using backupDir_neq[of "file_path f"]
  by (auto simp: backupOriginal_def Let_def getAbstractFileByPath_def createFolder_def
      createBinary_def split: option.splits sum.splits)

lemma backupOriginal_writes:
  "writesTo p (snd (backupOriginal v f contents)) = writesTo p v"
  using backupDir_neq[of "file_path f"]
  by (auto simp: backupOriginal_def Let_def getAbstractFileByPath_def createFolder_def
      createBinary_def writesTo_def split: option.splits sum.splits)

lemma processImage_try_cases:
  assumes "entries (vault s) (file_path f) = Some (File contents)"
  shows "processImage_try autocrop refresh s f =
     (case autocrop (sharp s) (settings s) contents of
        Inl error \<Rightarrow> (Inl error, s\<lparr> vault := afterBackup s f contents \<rparr>)
      | Inr None \<Rightarrow> (Inr False, s\<lparr> vault := afterBackup s f contents \<rparr>)
      | Inr (Some buf) \<Rightarrow>
          (case refresh f of
             Some e \<Rightarrow>
               (Inl e,
                s\<lparr> vault := (afterBackup s f contents)
                      \<lparr> entries := (entries (afterBackup s f contents))(file_path f \<mapsto> File buf),
                        journal := journal (afterBackup s f contents) @
                                     [ModifyBinary (file_path f) buf] \<rparr> \<rparr>)
           | None \<Rightarrow>
               (Inr True,
                s\<lparr> vault := (afterBackup s f contents)
                      \<lparr> entries := (entries (afterBackup s f contents))(file_path f \<mapsto> File buf),
                        journal := journal (afterBackup s f contents) @
                                     [ModifyBinary (file_path f) buf] \<rparr>,
                   notices := notices s @ [''Image autocropped: '' @ file_name f] \<rparr>)))"
proof -
  have rd: "readBinary (vault s) f = Inr contents"
    using assms by (simp add: readBinary_def)
  have bk: "(if keepBackup (settings s) then backupOriginal (vault s) f contents
             else (None, vault s)) = (None, afterBackup s f contents)"
    using backupOriginal_no_error[of "vault s" f contents]
    by (auto simp: afterBackup_def prod_eq_iff)
  have ex: "entries (afterBackup s f contents) (file_path f) = Some (File contents)"
    using assms by (simp add: afterBackup_def backupOriginal_keeps)
  show ?thesis
    by (simp only: processImage_try_def rd sum.case bk prod.case option.case)
       (simp add: modifyBinary_def ex split: sum.splits option.splits)
qed

lemma processImage_try_missing:
  assumes "\<And>contents. entries (vault s) (file_path f) \<noteq> Some (File contents)"
  shows "snd (processImage_try autocrop refresh s f) = s"
  using assms
  by (auto simp: processImage_try_def readBinary_def split: option.splits node.splits)

lemma afterBackup_backup:
  "entries (afterBackup s f contents) (getBackupPath (file_path f)) =
   (case entries (vault s) (getBackupPath (file_path f)) of
      None \<Rightarrow> if keepBackup (settings s) then Some (File contents) else None
    | Some n \<Rightarrow> Some n)"
  by (simp add: afterBackup_def backupOriginal_backup split: option.splits)

lemma afterBackup_writes: "writesTo p (afterBackup s f contents) = writesTo p (vault s)"
  by (simp add: afterBackup_def backupOriginal_writes)


lemma processImage_try_backup:
  "entries (vault (snd (processImage_try autocrop refresh s f))) (getBackupPath (file_path f)) =
   (case entries (vault s) (getBackupPath (file_path f)) of
      Some n \<Rightarrow> Some n
    | None \<Rightarrow>
        (case entries (vault s) (file_path f) of
           Some (File contents) \<Rightarrow> if keepBackup (settings s) then Some (File contents) else None
         | _ \<Rightarrow> None))"
proof (cases "\<exists>contents. entries (vault s) (file_path f) = Some (File contents)")
  case True
  then obtain contents where c: "entries (vault s) (file_path f) = Some (File contents)"
    by blast
  have neq: "getBackupPath (file_path f) \<noteq> file_path f" by (rule getBackupPath_neq)
  show ?thesis
    unfolding processImage_try_cases[OF c]
    using neq
    by (simp add: c afterBackup_backup split: sum.splits option.splits)
next
  case False
  then have m: "\<And>contents. entries (vault s) (file_path f) \<noteq> Some (File contents)" by blast
  show ?thesis
    unfolding processImage_try_missing[OF m]
    using False by (auto split: option.splits node.splits)
qed

lemma processImage_run_vault:
  "vault (snd (processImage_run autocrop refresh s f)) =
   vault (snd (processImage_try autocrop refresh s f))"
  by (simp add: processImage_run_def Let_def split: prod.splits sum.splits)

lemma processImage_vault:
  "vault (snd (processImage autocrop refresh s f)) = vault s \<or>
   vault (snd (processImage autocrop refresh s f)) =
     vault (snd (processImage_try autocrop refresh
                   (s\<lparr> processing := insert (file_path f) (processing s) \<rparr>) f))"
  by (auto simp: processImage_def processImage_enter_def processImage_run_vault)

text \<open>
  Claim C9.  When the vault has an entry at the backup path of a file, \<open>processImage\<close>
  leaves that entry as it is, whatever the file holds now and whatever the run does.
  When there is none, the run leaves none or creates a backup that holds the bytes the
  file had before the run.
\<close>

theorem processImage_never_overwrites_backup:
  "(\<forall>n. entries (vault s) (getBackupPath (file_path f)) = Some n \<longrightarrow>
      entries (vault (snd (processImage autocrop refresh s f))) (getBackupPath (file_path f))
        = Some n) \<and>
   (entries (vault s) (getBackupPath (file_path f)) = None \<longrightarrow>
      entries (vault (snd (processImage autocrop refresh s f))) (getBackupPath (file_path f))
        = None \<or>
      (\<exists>contents. entries (vault s) (file_path f) = Some (File contents) \<and>
         entries (vault (snd (processImage autocrop refresh s f))) (getBackupPath (file_path f))
           = Some (File contents)))"
proof -
  let ?s1 = "s\<lparr> processing := insert (file_path f) (processing s) \<rparr>"
  have T: "entries (vault (snd (processImage_try autocrop refresh ?s1 f))) (getBackupPath (file_path f)) =
   (case entries (vault s) (getBackupPath (file_path f)) of
      Some n \<Rightarrow> Some n
    | None \<Rightarrow>
        (case entries (vault s) (file_path f) of
           Some (File contents) \<Rightarrow> if keepBackup (settings s) then Some (File contents) else None
         | _ \<Rightarrow> None))"
    using processImage_try_backup[of autocrop refresh ?s1 f]
    by (simp split: option.splits node.splits)
  from processImage_vault[of autocrop refresh s f]
  show ?thesis
  proof
    assume "vault (snd (processImage autocrop refresh s f)) = vault s"
    then show ?thesis by simp
  next
    assume "vault (snd (processImage autocrop refresh s f)) =
      vault (snd (processImage_try autocrop refresh ?s1 f))"
    then show ?thesis using T by (auto split: option.splits node.splits)
  qed
qed




lemma processImage_try_frame:
  "processing (snd (processImage_try autocrop refresh s f)) = processing s \<and>
   timers (snd (processImage_try autocrop refresh s f)) = timers s \<and>
   clock (snd (processImage_try autocrop refresh s f)) = clock s \<and>
   sharp (snd (processImage_try autocrop refresh s f)) = sharp s"
  by (simp add: processImage_try_def split: sum.splits option.splits prod.splits)

lemma processImage_run_frame:
  "processing (snd (processImage_run autocrop refresh s f)) = processing s \<and>
   timers (snd (processImage_run autocrop refresh s f)) = timers s @ [(clock s + 2000, file_path f)] \<and>
   clock (snd (processImage_run autocrop refresh s f)) = clock s \<and>
   sharp (snd (processImage_run autocrop refresh s f)) = sharp s"
proof -
  obtain outcome s1 where t: "processImage_try autocrop refresh s f = (outcome, s1)"
    by fastforce
  have "processing s1 = processing s" "timers s1 = timers s" "clock s1 = clock s"
    "sharp s1 = sharp s"
    using processImage_try_frame[of autocrop refresh s f] t by simp_all
  then show ?thesis
    by (cases outcome) (simp_all add: processImage_run_def t)
qed

lemma processImage_try_writes:
  "writesTo (file_path f) (vault (snd (processImage_try autocrop refresh s f))) =
     writesTo (file_path f) (vault s) \<and>
   fst (processImage_try autocrop refresh s f) \<noteq> Inr True \<or>
   (\<exists>buf. writesTo (file_path f) (vault (snd (processImage_try autocrop refresh s f))) =
      writesTo (file_path f) (vault s) @ [buf])"
proof (cases "\<exists>contents. entries (vault s) (file_path f) = Some (File contents)")
  case True
  then obtain contents where c: "entries (vault s) (file_path f) = Some (File contents)"
    by blast
  show ?thesis
    unfolding processImage_try_cases[OF c]
    by (simp add: afterBackup_writes writesTo_modify split: sum.splits option.splits)
next
  case False
  then have r: "readBinary (vault s) f = Inl (Error ''ENOENT: no such file or directory'')"
    by (auto simp: readBinary_def split: option.splits node.splits)
  show ?thesis by (simp add: processImage_try_def r)
qed

lemma processImage_run_writes:
  "writesTo (file_path f) (vault (snd (processImage_run autocrop refresh s f))) =
     writesTo (file_path f) (vault s) \<and>
   \<not> fst (processImage_run autocrop refresh s f) \<or>
   (\<exists>buf. writesTo (file_path f) (vault (snd (processImage_run autocrop refresh s f))) =
      writesTo (file_path f) (vault s) @ [buf])"
proof -
  obtain outcome s1 where t: "processImage_try autocrop refresh s f = (outcome, s1)"
    by fastforce
  have "writesTo (file_path f) (vault s1) = writesTo (file_path f) (vault s) \<and> outcome \<noteq> Inr True \<or>
    (\<exists>buf. writesTo (file_path f) (vault s1) = writesTo (file_path f) (vault s) @ [buf])"
    using processImage_try_writes[of f autocrop refresh s] t by simp
  then show ?thesis
    by (cases outcome) (auto simp: processImage_run_def t)
qed

lemma elapse_frame:
  "sharp (elapse ms s) = sharp s \<and> vault (elapse ms s) = vault s \<and>
   settings (elapse ms s) = settings s \<and> clock (elapse ms s) = clock s + ms"
  by (simp add: elapse_def Let_def)

lemma elapse_keeps:
  assumes "p \<in> processing s" "\<forall>(due_at, q) \<in> set (timers s). q = p \<longrightarrow> clock s + ms < due_at"
  shows "p \<in> processing (elapse ms s)"
  using assms by (auto simp: elapse_def Let_def)

lemma elapse_removes:
  assumes "(due_at, p) \<in> set (timers s)" "due_at \<le> clock s + ms"
  shows "p \<notin> processing (elapse ms s)"
  using assms by (force simp: elapse_def Let_def)

lemma processImage_rejected:
  assumes "sharp s \<noteq> None" "file_path f \<in> processing s"
  shows "processImage autocrop refresh s f = (False, s)"
  using assms by (auto simp: processImage_def processImage_enter_def)

lemma processImage_admitted_run:
  assumes lib: "sharp s \<noteq> None" and free: "file_path f \<notin> processing s"
    and idle: "\<forall>(due_at, p) \<in> set (timers s). p \<noteq> file_path f"
    and same: "file_path f' = file_path f"
  shows
    "case processImage_enter s f of
       (admitted, s1) \<Rightarrow>
         admitted = Admitted \<and>
         (\<forall>ms. processImage autocrop refresh (elapse ms s1) f' = (False, elapse ms s1)) \<and>
         (\<forall>took. case processImage_run autocrop refresh (elapse took s1) f of
            (returned, s2) \<Rightarrow>
              (\<forall>ms<2000. processImage autocrop refresh (elapse ms s2) f' = (False, elapse ms s2)) \<and>
              (\<forall>ms\<ge>2000. file_path f \<notin> processing (elapse ms s2)) \<and>
              length (writesTo (file_path f) (vault s2)) \<le> length (writesTo (file_path f) (vault s)) + 1 \<and>
              (returned \<longrightarrow>
                 length (writesTo (file_path f) (vault s2)) =
                 length (writesTo (file_path f) (vault s)) + 1))"
proof -
  define s1 where "s1 = s\<lparr> processing := insert (file_path f) (processing s) \<rparr>"
  have enter: "processImage_enter s f = (Admitted, s1)"
    using lib free by (auto simp: processImage_enter_def s1_def)
  have s1: "sharp s1 \<noteq> None" "file_path f \<in> processing s1" "timers s1 = timers s"
    "vault s1 = vault s"
    using lib by (simp_all add: s1_def)
  have flight: "file_path f \<in> processing (elapse ms s1)" for ms
    by (rule elapse_keeps) (use s1 idle in auto)
  have second: "processImage autocrop refresh (elapse ms s1) f' = (False, elapse ms s1)" for ms
    by (rule processImage_rejected) (use flight s1 same in \<open>simp_all add: elapse_frame\<close>)
  have after: "(\<forall>ms<2000. processImage autocrop refresh (elapse ms s2) f' = (False, elapse ms s2)) \<and>
              (\<forall>ms\<ge>2000. file_path f \<notin> processing (elapse ms s2)) \<and>
              length (writesTo (file_path f) (vault s2)) \<le> length (writesTo (file_path f) (vault s)) + 1 \<and>
              (returned \<longrightarrow>
                 length (writesTo (file_path f) (vault s2)) =
                 length (writesTo (file_path f) (vault s)) + 1)"
    if run: "processImage_run autocrop refresh (elapse took s1) f = (returned, s2)"
    for took returned s2
  proof -
    let ?e = "elapse took s1"
    have fr: "processing s2 = processing ?e"
      "timers s2 = timers ?e @ [(clock ?e + 2000, file_path f)]"
      "clock s2 = clock ?e" "sharp s2 = sharp ?e"
      using processImage_run_frame[of autocrop refresh ?e f] run by simp_all
    have sub: "set (timers ?e) \<subseteq> set (timers s)"
      using s1(3) by (auto simp: elapse_def Let_def)
    have in2: "file_path f \<in> processing s2" using fr(1) flight by simp
    have lib2: "sharp s2 \<noteq> None" using fr(4) s1(1) by (simp add: elapse_frame)
    have a: "processImage autocrop refresh (elapse ms s2) f' = (False, elapse ms s2)"
      if "ms < 2000" for ms
    proof (rule processImage_rejected)
      show "sharp (elapse ms s2) \<noteq> None" using lib2 by (simp add: elapse_frame)
      have "file_path f \<in> processing (elapse ms s2)"
      proof (rule elapse_keeps[OF in2])
        show "\<forall>(due_at, q)\<in>set (timers s2). q = file_path f \<longrightarrow> clock s2 + ms < due_at"
          using fr(2,3) sub idle that by auto
      qed
      then show "file_path f' \<in> processing (elapse ms s2)" using same by simp
    qed
    have b: "file_path f \<notin> processing (elapse ms s2)" if "2000 \<le> ms" for ms
      by (rule elapse_removes[of "clock ?e + 2000"]) (use fr that in auto)
    have w: "writesTo (file_path f) (vault s2) = writesTo (file_path f) (vault s) \<and> \<not> returned \<or>
      (\<exists>buf. writesTo (file_path f) (vault s2) = writesTo (file_path f) (vault s) @ [buf])"
      using processImage_run_writes[of f autocrop refresh ?e] run s1(4)
      by (simp add: elapse_frame)
    from a b w show ?thesis by auto
  qed
  show ?thesis
    unfolding enter using second after by (auto split: prod.splits)
qed

lemma reachable_invariant:
  assumes "reachable autocrop refresh s running"
  shows "distinct running \<and> set running \<subseteq> processing s \<and>
         distinct (map snd (timers s)) \<and>
         (\<forall>p \<in> snd ` set (timers s). p \<in> processing s \<and> p \<notin> set running)"
  using assms
proof (induction rule: reachable.induct)
  case (loaded s)
  then show ?case by simp
next
  case (request s running f admitted s')
  consider (u) "admitted = Unavailable" "s' = s\<lparr> notices := notices s @ [''Image processing library not available''] \<rparr>"
    | (r) "admitted = Rejected" "s' = s"
    | (a) "admitted = Admitted" "file_path f \<notin> processing s"
        "s' = s\<lparr> processing := insert (file_path f) (processing s) \<rparr>"
    using request.hyps(2) by (auto simp: processImage_enter_def split: if_splits)
  then show ?case
  proof cases
    case u
    then show ?thesis using request.IH by simp
  next
    case r
    then show ?thesis using request.IH by simp
  next
    case a
    then show ?thesis using request.IH by auto
  qed
next
  case (finish s running f returned s')
  have fr: "processing s' = processing s"
    "timers s' = timers s @ [(clock s + 2000, file_path f)]"
    using processImage_run_frame[of autocrop refresh s f] finish.hyps(3) by simp_all
  have d: "distinct running" and sub: "set running \<subseteq> processing s"
    and dt: "distinct (map snd (timers s))"
    and tm: "\<forall>p \<in> snd ` set (timers s). p \<in> processing s \<and> p \<notin> set running"
    using finish.IH by blast+
  have notin: "file_path f \<notin> snd ` set (timers s)" using tm finish.hyps(2) by blast
  have s1: "set (remove1 (file_path f) running) = set running - {file_path f}"
    using d by simp
  show ?case
    unfolding fr s1
    using d sub dt tm notin finish.hyps(2) by auto
next
  case (wait s running ms)
  have d: "distinct running" and sub: "set running \<subseteq> processing s"
    and dt: "distinct (map snd (timers s))"
    and tm: "\<forall>p \<in> snd ` set (timers s). p \<in> processing s \<and> p \<notin> set running"
    using wait.IH by blast+
  let ?t = "clock s + ms"
  have pr: "processing (elapse ms s) =
            processing s - snd ` {x \<in> set (timers s). fst x \<le> ?t}"
    and ti: "timers (elapse ms s) = filter (\<lambda>x. \<not> fst x \<le> ?t) (timers s)"
    by (auto simp: elapse_def Let_def split_def)
  have inj: "inj_on snd (set (timers s))" using dt by (simp add: distinct_map)
  have keep: "p \<in> processing (elapse ms s) \<and> p \<notin> set running"
    if "p \<in> snd ` set (timers (elapse ms s))" for p
  proof -
    have "\<exists>x. x \<in> set (timers s) \<and> \<not> fst x \<le> ?t \<and> p = snd x"
      using that unfolding ti by auto
    then obtain x where x: "x \<in> set (timers s)" "\<not> fst x \<le> ?t" "p = snd x"
      by blast
    have "p \<notin> snd ` {y \<in> set (timers s). fst y \<le> ?t}"
    proof
      assume "p \<in> snd ` {y \<in> set (timers s). fst y \<le> ?t}"
      then have "\<exists>y. y \<in> set (timers s) \<and> fst y \<le> ?t \<and> p = snd y" by auto
      then obtain y where y: "y \<in> set (timers s)" "fst y \<le> ?t" "p = snd y" by blast
      then have "x = y" using inj x by (auto dest: inj_onD)
      then show False using x(2) y(2) by simp
    qed
    moreover have "p \<in> processing s \<and> p \<notin> set running" using tm x by blast
    ultimately show ?thesis unfolding pr by blast
  qed
  have "set running \<subseteq> processing (elapse ms s)"
    unfolding pr using sub tm by auto
  moreover have "distinct (map snd (timers (elapse ms s)))"
    unfolding ti using dt by (rule distinct_map_filter)
  ultimately show ?case using d keep by blast
qed

lemma reachable_idle:
  assumes "reachable autocrop refresh s running" "p \<notin> processing s"
  shows "\<forall>(due_at, q) \<in> set (timers s). q \<noteq> p"
  using reachable_invariant[OF assms(1)] assms(2) by force

text \<open>
  Claim C8.  In every state the plugin can reach, no path has two runs in flight, and a
  request for a path that has a run in flight returns false and leaves the plugin as it
  is.  A path that is not in flight is admitted.  From then on, however long the run
  takes, a request for the same path returns false and leaves the plugin as it is.
  This still holds for less than 2000 ms after the run has ended; from 2000 ms on the
  path is no longer in flight.  The two requests together write to the file at most
  once, and once when the run returns true.
\<close>

theorem processImage_one_run_in_flight:
  assumes reach: "reachable autocrop refresh s running"
  shows
    "distinct running \<and>
     (\<forall>f. file_path f \<in> set running \<and> sharp s \<noteq> None \<longrightarrow>
        processImage autocrop refresh s f = (False, s)) \<and>
     (\<forall>f f'. sharp s \<noteq> None \<and> file_path f \<notin> processing s \<and> file_path f' = file_path f \<longrightarrow>
        (case processImage_enter s f of
           (admitted, s1) \<Rightarrow>
             admitted = Admitted \<and>
             (\<forall>ms. processImage autocrop refresh (elapse ms s1) f' = (False, elapse ms s1)) \<and>
             (\<forall>took. case processImage_run autocrop refresh (elapse took s1) f of
                (returned, s2) \<Rightarrow>
                  (\<forall>ms<2000. processImage autocrop refresh (elapse ms s2) f' = (False, elapse ms s2)) \<and>
                  (\<forall>ms\<ge>2000. file_path f \<notin> processing (elapse ms s2)) \<and>
                  length (writesTo (file_path f) (vault s2)) \<le>
                    length (writesTo (file_path f) (vault s)) + 1 \<and>
                  (returned \<longrightarrow>
                     length (writesTo (file_path f) (vault s2)) =
                     length (writesTo (file_path f) (vault s)) + 1))))"
proof (intro conjI allI impI)
  show "distinct running" using reachable_invariant[OF reach] by blast
next
  fix f :: tfile
  assume a: "file_path f \<in> set running \<and> sharp s \<noteq> None"
  then have "file_path f \<in> processing s" using reachable_invariant[OF reach] by blast
  then show "processImage autocrop refresh s f = (False, s)"
    using a by (intro processImage_rejected) simp_all
next
  fix f f' :: tfile
  assume a: "sharp s \<noteq> None \<and> file_path f \<notin> processing s \<and> file_path f' = file_path f"
  then have idle: "\<forall>(due_at, p) \<in> set (timers s). p \<noteq> file_path f"
    using reachable_idle[OF reach] by blast
  from a show "case processImage_enter s f of
           (admitted, s1) \<Rightarrow>
             admitted = Admitted \<and>
             (\<forall>ms. processImage autocrop refresh (elapse ms s1) f' = (False, elapse ms s1)) \<and>
             (\<forall>took. case processImage_run autocrop refresh (elapse took s1) f of
                (returned, s2) \<Rightarrow>
                  (\<forall>ms<2000. processImage autocrop refresh (elapse ms s2) f' = (False, elapse ms s2)) \<and>
                  (\<forall>ms\<ge>2000. file_path f \<notin> processing (elapse ms s2)) \<and>
                  length (writesTo (file_path f) (vault s2)) \<le>
                    length (writesTo (file_path f) (vault s)) + 1 \<and>
                  (returned \<longrightarrow>
                     length (writesTo (file_path f) (vault s2)) =
                     length (writesTo (file_path f) (vault s)) + 1))"
    by (intro processImage_admitted_run idle) simp_all
qed

subsection \<open>Runs on a concrete vault\<close>

lemma getBackupPath_imageFile:
  "getBackupPath (file_path imageFile) = ''Assets/_originals/img.png''"
  by code_simp

lemma autocropImage_undecodable:
  "autocropImage (Some stubSharp) DEFAULT_SETTINGS [9, 9] =
   Inl (Error ''Input buffer contains unsupported image format'')"
  by (simp add: autocropImage_def autocropTry_def resizeOnly_def stubSharp_def stubDecode_def)

lemma autocropImage_pad_uniform:
  "autocropImage_pad (Some stubSharp) DEFAULT_SETTINGS [1, 1, 255, 0, 0, 255] =
   Inr (Some [1, 1, 255, 0, 0, 255])"
  by code_simp

theorem processImage_never_overwrites_backup_witness:
  "entries (vault (loadedPlugin [''Assets/img.png'' \<mapsto> File [9, 9],
      ''Assets/_originals/img.png'' \<mapsto> File [1, 1, 255, 0, 0, 255]]))
     (getBackupPath (file_path imageFile)) = Some (File [1, 1, 255, 0, 0, 255]) \<and>
   entries (vault (snd (processImage autocropImage (\<lambda>_. None)
      (loadedPlugin [''Assets/img.png'' \<mapsto> File [9, 9],
         ''Assets/_originals/img.png'' \<mapsto> File [1, 1, 255, 0, 0, 255]]) imageFile)))
     (getBackupPath (file_path imageFile)) = Some (File [1, 1, 255, 0, 0, 255])"
proof -
  let ?s = "loadedPlugin [''Assets/img.png'' \<mapsto> File [9, 9],
      ''Assets/_originals/img.png'' \<mapsto> File [1, 1, 255, 0, 0, 255]]"
  have pre: "entries (vault ?s) (getBackupPath (file_path imageFile)) =
             Some (File [1, 1, 255, 0, 0, 255])"
    by (simp add: getBackupPath_imageFile loadedPlugin_def)
  from processImage_never_overwrites_backup[of ?s imageFile autocropImage "\<lambda>_. None"] pre
  show ?thesis by blast
qed


theorem processImage_one_run_in_flight_witness:
  "fst (processImage_enter (loadedPlugin [''Assets/img.png'' \<mapsto> File [1, 1, 255, 0, 0, 255]])
          imageFile) = Admitted \<and>
   fst (processImage autocropImage_pad (\<lambda>_. None)
          (elapse 500 (snd (processImage_enter
             (loadedPlugin [''Assets/img.png'' \<mapsto> File [1, 1, 255, 0, 0, 255]]) imageFile)))
          imageFile) = False \<and>
   file_path imageFile \<notin> processing (elapse 2000 (snd (processImage_run autocropImage_pad (\<lambda>_. None)
          (elapse 700 (snd (processImage_enter
             (loadedPlugin [''Assets/img.png'' \<mapsto> File [1, 1, 255, 0, 0, 255]]) imageFile)))
          imageFile))) \<and>
   length (writesTo (file_path imageFile) (vault (snd (processImage_run autocropImage_pad (\<lambda>_. None)
          (elapse 700 (snd (processImage_enter
             (loadedPlugin [''Assets/img.png'' \<mapsto> File [1, 1, 255, 0, 0, 255]]) imageFile)))
          imageFile)))) = 1"
proof -
  let ?s = "loadedPlugin [''Assets/img.png'' \<mapsto> File [1, 1, 255, 0, 0, 255]]"
  have lib: "sharp ?s \<noteq> None" by (simp add: loadedPlugin_def)
  have free: "file_path imageFile \<notin> processing ?s" by (simp add: loadedPlugin_def)
  have reach: "reachable autocropImage_pad (\<lambda>_. None) ?s []"
    by (rule reachable.loaded) (simp_all add: loadedPlugin_def)
  have "sharp ?s \<noteq> None \<and> file_path imageFile \<notin> processing ?s \<and>
        file_path imageFile = file_path imageFile"
    using lib free by simp
  note T = processImage_one_run_in_flight[OF reach, THEN conjunct2, THEN conjunct2,
      rule_format, OF this]
  obtain a s1 where e: "processImage_enter ?s imageFile = (a, s1)" by fastforce
  obtain returned s2 where r:
    "processImage_run autocropImage_pad (\<lambda>_. None) (elapse 700 s1) imageFile = (returned, s2)"
    by fastforce
  from T e have 1: "a = Admitted"
    and 2: "\<forall>ms. processImage autocropImage_pad (\<lambda>_. None) (elapse ms s1) imageFile = (False, elapse ms s1)"
    and 3: "\<forall>took. case processImage_run autocropImage_pad (\<lambda>_. None) (elapse took s1) imageFile of
            (returned, s2) \<Rightarrow> (\<forall>ms\<ge>2000. file_path imageFile \<notin> processing (elapse ms s2))"
    by (auto split: prod.splits)
  from 3 r have gone: "file_path imageFile \<notin> processing (elapse 2000 s2)"
    by (metis (mono_tags, lifting) case_prod_conv order_refl)
  from T e r have once: "returned \<longrightarrow>
      length (writesTo (file_path imageFile) (vault s2)) =
      length (writesTo (file_path imageFile) (vault ?s)) + 1"
    by (auto split: prod.splits)
  have s1: "s1 = ?s\<lparr> processing := insert (file_path imageFile) (processing ?s) \<rparr>"
    using e lib free by (auto simp: processImage_enter_def)
  have c: "entries (vault (elapse 700 s1)) (file_path imageFile) = Some (File [1, 1, 255, 0, 0, 255])"
    by (simp add: s1 elapse_frame loadedPlugin_def imageFile_def)
  have ok: "autocropImage_pad (sharp (elapse 700 s1)) (settings (elapse 700 s1)) [1, 1, 255, 0, 0, 255] =
            Inr (Some [1, 1, 255, 0, 0, 255])"
    using autocropImage_pad_uniform by (simp add: s1 elapse_frame loadedPlugin_def)
  have "returned"
    using r unfolding processImage_run_def processImage_try_cases[OF c] ok by simp
  with once have "length (writesTo (file_path imageFile) (vault s2)) = 1"
    by (simp add: loadedPlugin_def writesTo_def)
  then show ?thesis using 1 2 e r gone by simp
qed

section \<open>Properties of the pipelines on images of one colour\<close>

lemma length_solidPixels: "length (solidPixels n cr cg cb ca) = n * 4"
  by (induction n) (simp_all add: solidPixels_def)

lemma solidPixels_nth:
  "i < n * 4 \<Longrightarrow> solidPixels n cr cg cb ca ! i = [cr, cg, cb, ca] ! (i mod 4)"
proof (induction n arbitrary: i)
  case 0
  then show ?case by simp
next
  case (Suc n)
  have unf: "solidPixels (Suc n) cr cg cb ca = [cr, cg, cb, ca] @ solidPixels n cr cg cb ca"
    by (simp add: solidPixels_def)
  show ?case
  proof (cases "i < 4")
    case True
    then have "i = 0 \<or> i = 1 \<or> i = 2 \<or> i = 3" by arith
    then show ?thesis unfolding unf by auto
  next
    case False
    then have "i - 4 < n * 4" using Suc.prems by simp
    moreover have "([cr, cg, cb, ca] @ solidPixels n cr cg cb ca) ! i =
                   solidPixels n cr cg cb ca ! (i - 4)"
      using False by (subst nth_append) (simp add: numeral_eq_Suc)
    moreover have "(i - 4) mod 4 = i mod 4" using False by presburger
    ultimately show ?thesis
      unfolding unf using Suc.IH[of "i - 4"] by simp
  qed
qed

lemma buf_at_solidPixels:
  assumes "k < n" "j < 4"
  shows "buf_at (solidPixels n cr cg cb ca) (int k * 4 + int j) = Some ([cr, cg, cb, ca] ! j)"
proof -
  have lt: "k * 4 + j < n * 4" using assms by simp
  have n: "nat (int k * 4 + int j) = k * 4 + j" by (simp add: nat_add_distrib nat_mult_distrib)
  have m: "(k * 4 + j) mod 4 = j" using assms(2) by simp
  have "0 \<le> int k * 4 + int j \<and> int k * 4 + int j < int (n * 4)" using lt by simp
  then show ?thesis
    using solidPixels_nth[OF lt, of cr cg cb ca]
    unfolding buf_at_def length_solidPixels n m by simp
qed

lemma pixel_number_lt:
  fixes x y width height :: nat
  assumes "x < width" "y < height"
  shows "y * width + x < width * height"
proof -
  have "y * width + x < (y + 1) * width" using assms(1) by simp
  also have "\<dots> \<le> height * width" using assms(2) by (intro mult_le_mono1) simp
  finally show ?thesis by (simp add: mult.commute)
qed

lemma pixel_number_in_range:
  fixes x y :: int
  assumes "0 \<le> x" "x < int width" "0 \<le> y" "y < int height"
  shows "nat (y * int width + x) < width * height \<and> int (nat (y * int width + x)) = y * int width + x"
proof
  have "nat x < width" "nat y < height" using assms by simp_all
  then have lt: "nat y * width + nat x < width * height" by (rule pixel_number_lt)
  have eq: "nat (y * int width + x) = nat y * width + nat x"
    using assms by (simp add: nat_add_distrib nat_mult_distrib)
  show "nat (y * int width + x) < width * height" unfolding eq by (rule lt)
  have "0 \<le> y * int width + x" using assms by simp
  then show "int (nat (y * int width + x)) = y * int width + x" by (rule nat_0_le)
qed

lemma samplePixel_solid:
  assumes "0 \<le> x" "x < int width" "0 \<le> y" "y < int height" "128 \<le> uint ca"
  shows "samplePixel (solidPixels (width * height) cr cg cb ca) width (x, y)
           (Num a1, Num a2, Num a3, count) =
         (Num (a1 + uint cr), Num (a2 + uint cg), Num (a3 + uint cb), count + 1)"
proof -
  define k where "k = nat (y * int width + x)"
  have k: "k < width * height" "int k = y * int width + x"
    using pixel_number_in_range[OF assms(1-4)] by (simp_all add: k_def)
  let ?S = "solidPixels (width * height) cr cg cb ca"
  have b: "buf_at ?S (int k * 4) = Some cr" "buf_at ?S (int k * 4 + 1) = Some cg"
    "buf_at ?S (int k * 4 + 2) = Some cb" "buf_at ?S (int k * 4 + 3) = Some ca"
    using buf_at_solidPixels[OF k(1), of 0 cr cg cb ca] buf_at_solidPixels[OF k(1), of 1 cr cg cb ca]
      buf_at_solidPixels[OF k(1), of 2 cr cg cb ca] buf_at_solidPixels[OF k(1), of 3 cr cg cb ca]
    by simp_all
  show ?thesis
    unfolding samplePixel_def Let_def prod.case k(2)[symmetric]
    using assms(5) by (simp add: b toNumber_def)
qed

lemma fold_samplePixel_solid:
  assumes "\<forall>(x, y) \<in> set xs. 0 \<le> x \<and> x < int width \<and> 0 \<le> y \<and> y < int height"
    and "128 \<le> uint ca"
  shows "fold (samplePixel (solidPixels (width * height) cr cg cb ca) width) xs
           (Num (int n * uint cr), Num (int n * uint cg), Num (int n * uint cb), n) =
         (Num (int (n + length xs) * uint cr), Num (int (n + length xs) * uint cg),
          Num (int (n + length xs) * uint cb), n + length xs)"
  using assms(1)
proof (induction xs arbitrary: n)
  case Nil
  then show ?case by simp
next
  case (Cons xy xs)
  obtain x y where xy: "xy = (x, y)" by (cases xy)
  have r: "0 \<le> x" "x < int width" "0 \<le> y" "y < int height"
    using Cons.prems xy by auto
  have step: "samplePixel (solidPixels (width * height) cr cg cb ca) width xy
           (Num (int n * uint cr), Num (int n * uint cg), Num (int n * uint cb), n) =
         (Num (int (Suc n) * uint cr), Num (int (Suc n) * uint cg), Num (int (Suc n) * uint cb), Suc n)"
    unfolding xy samplePixel_solid[OF r assms(2)] by (simp add: algebra_simps)
  have rest: "\<forall>(x, y) \<in> set xs. 0 \<le> x \<and> x < int width \<and> 0 \<le> y \<and> y < int height"
    using Cons.prems by simp
  show ?case
    using Cons.IH[OF rest, of "Suc n"] by (simp add: step)
qed

lemma roundDiv_mean: "0 < n \<Longrightarrow> roundDiv (int n * v) n = v"
proof -
  assume n: "0 < n"
  have "(of_int (int n * v) :: rat) / of_nat n = of_int v" using n by simp
  moreover have "\<lfloor>(of_int v :: rat) + 1 / 2\<rfloor> = v"
    by (rule floor_unique) simp_all
  ultimately show ?thesis unfolding roundDiv_def by simp
qed

lemma cornerSamples_in_range:
  assumes "20 \<le> width" "20 \<le> height"
  shows "\<forall>(x, y) \<in> set (cornerSamples width height).
           0 \<le> x \<and> x < int width \<and> 0 \<le> y \<and> y < int height"
proof -
  have "0 \<le> x \<and> x < int width \<and> 0 \<le> y \<and> y < int height"
    if "(cx, cy) \<in> set (corners width height)" "dx < sampleSize" "dy < sampleSize"
      "x = cx + int dx" "y = cy + int dy" for x y cx cy dx dy
    using that assms by (auto simp: corners_def sampleSize_def)
  then show ?thesis
    unfolding cornerSamples_def by (auto simp del: upt_Suc)
qed

lemma cornerSamples_nonempty:
  assumes "0 < width" "0 < height"
  shows "0 < length (cornerSamples width height)"
proof -
  have c: "(0, 0) \<in> set (corners width height)" by (simp add: corners_def)
  have z: "(0::nat) \<in> set [0..<sampleSize]" by (simp add: sampleSize_def)
  have "(0 + int 0, 0 + int 0) \<in>
    set [(cx + int dx, cy + int dy).
          (cx, cy) \<leftarrow> corners width height, dy \<leftarrow> [0..<sampleSize], dx \<leftarrow> [0..<sampleSize]]"
    by (rule in_corner_grid[OF c z z])
  then have "(0, 0) \<in> set (cornerSamples width height)"
    using assms by (simp add: cornerSamples_def)
  then show ?thesis by (cases "cornerSamples width height") auto
qed

lemma edgeSamples_in_range:
  assumes "0 < width" "0 < height"
  shows "\<forall>(x, y) \<in> set (edgeSamples width height).
           0 \<le> x \<and> x < int width \<and> 0 \<le> y \<and> y < int height"
proof -
  have t: "10 * int k < int n" if "k < (n + 9) div 10" for k n :: nat
    using that by linarith
  have "0 \<le> x \<and> x < int width" if "x \<in> set (everyTenth width)" for x
    using that t[of _ width] by (auto simp: everyTenth_def)
  moreover have "0 \<le> y \<and> y < int height" if "y \<in> set (everyTenth height)" for y
    using that t[of _ height] by (auto simp: everyTenth_def)
  ultimately show ?thesis
    using assms unfolding edgeSamples_def by auto
qed

lemma detectBackgroundColor_solid:
  assumes w: "20 \<le> width" and h: "20 \<le> height" and a: "128 \<le> uint ca"
  shows "detectBackgroundColor (solidPixels (width * height) cr cg cb ca) width height =
         Some \<lparr> color_r = Num (uint cr), color_g = Num (uint cg), color_b = Num (uint cb) \<rparr>"
proof -
  let ?S = "solidPixels (width * height) cr cg cb ca"
  let ?n = "length (cornerSamples width height)"
  let ?m = "?n + length (edgeSamples width height)"
  have pos: "0 < width" "0 < height" using w h by simp_all
  have n: "0 < ?n" using cornerSamples_nonempty[OF pos] .
  have c: "fold (samplePixel ?S width) (cornerSamples width height) (Num 0, Num 0, Num 0, 0) =
           (Num (int ?n * uint cr), Num (int ?n * uint cg), Num (int ?n * uint cb), ?n)"
    using fold_samplePixel_solid[OF cornerSamples_in_range[OF w h] a, of cr cg cb 0] by simp
  have e: "fold (samplePixel ?S width) (edgeSamples width height)
             (Num (int ?n * uint cr), Num (int ?n * uint cg), Num (int ?n * uint cb), ?n) =
           (Num (int ?m * uint cr), Num (int ?m * uint cg), Num (int ?m * uint cb), ?m)"
    using fold_samplePixel_solid[OF edgeSamples_in_range[OF pos] a, of cr cg cb ?n] .
  have m: "0 < ?m" using n by simp
  show ?thesis
  proof (cases "?n < 100")
    case True
    then show ?thesis
      unfolding detectBackgroundColor_def c Let_def
      using m by (simp add: e roundDiv_mean del: of_nat_add)
  next
    case False
    then show ?thesis
      unfolding detectBackgroundColor_def c Let_def
      using n by (simp add: roundDiv_mean)
  qed
qed

lemma solidPixels_nth_cases:
  assumes "i < n * 4"
  shows "solidPixels n cr cg cb ca ! i =
         (if i mod 4 = 0 then cr else if i mod 4 = 1 then cg else if i mod 4 = 2 then cb else ca)"
proof -
  have r: "i mod 4 = 0 \<or> i mod 4 = 1 \<or> i mod 4 = 2 \<or> i mod 4 = 3" by presburger
  have e: "solidPixels n cr cg cb ca ! i = [cr, cg, cb, ca] ! (i mod 4)"
    by (rule solidPixels_nth[OF assms])
  from r show ?thesis
  proof (elim disjE)
    assume "i mod 4 = 0" then show ?thesis unfolding e by simp
  next
    assume "i mod 4 = 1" then show ?thesis unfolding e by simp
  next
    assume "i mod 4 = 2" then show ?thesis unfolding e by simp
  next
    assume "i mod 4 = 3" then show ?thesis unfolding e by simp
  qed
qed

lemma isBackground_solid:
  assumes m: "m mod 4 = 0" and lt: "m + 3 < n * 4"
  shows "isBackground (solidPixels n cr cg cb ca) m
            \<lparr> color_r = Num (uint cr), color_g = Num (uint cg), color_b = Num (uint cb) \<rparr> 30"
proof -
  have l0: "m < n * 4" and l1: "m + 1 < n * 4" and l2: "m + 2 < n * 4" using lt by simp_all
  have m1: "(m + 1) mod 4 = 1" and m2: "(m + 2) mod 4 = 2" using m by presburger+
  have p0: "solidPixels n cr cg cb ca ! m = cr"
    using solidPixels_nth_cases[OF l0, of cr cg cb ca] m by simp
  have p1: "solidPixels n cr cg cb ca ! (m + 1) = cg"
    using solidPixels_nth_cases[OF l1, of cr cg cb ca] m1 by simp
  have p2: "solidPixels n cr cg cb ca ! (m + 2) = cb"
    using solidPixels_nth_cases[OF l2, of cr cg cb ca] m2 by simp
  have rng: "m + 2 < length (solidPixels n cr cg cb ca)"
    using l2 by (simp add: length_solidPixels)
  show ?thesis
    unfolding isBackground_in_range[OF rng] p0 p1 p2 by simp
qed

lemma makeBackgroundTransparent_solid:
  "makeBackgroundTransparent (solidPixels n cr cg cb ca)
     \<lparr> color_r = Num (uint cr), color_g = Num (uint cg), color_b = Num (uint cb) \<rparr> 30 =
   solidPixels n cr cg cb 0"
proof (rule nth_equalityI)
  show "length (makeBackgroundTransparent (solidPixels n cr cg cb ca)
     \<lparr> color_r = Num (uint cr), color_g = Num (uint cg), color_b = Num (uint cb) \<rparr> 30) =
     length (solidPixels n cr cg cb 0)"
    unfolding mask_length length_solidPixels by (rule refl)
next
  fix i
  assume "i < length (makeBackgroundTransparent (solidPixels n cr cg cb ca)
     \<lparr> color_r = Num (uint cr), color_g = Num (uint cg), color_b = Num (uint cb) \<rparr> 30)"
  then have i: "i < n * 4" unfolding mask_length length_solidPixels .
  then have i': "i < length (solidPixels n cr cg cb ca)" unfolding length_solidPixels .
  note M = mask_nth[OF i', of "\<lparr> color_r = Num (uint cr), color_g = Num (uint cg), color_b = Num (uint cb) \<rparr>" 30]
  note A = solidPixels_nth_cases[OF i, of cr cg cb ca]
  note B = solidPixels_nth_cases[OF i, of cr cg cb 0]
  show "makeBackgroundTransparent (solidPixels n cr cg cb ca)
     \<lparr> color_r = Num (uint cr), color_g = Num (uint cg), color_b = Num (uint cb) \<rparr> 30 ! i =
     solidPixels n cr cg cb 0 ! i"
  proof (cases "i mod 4 = 3")
    case False
    have "makeBackgroundTransparent (solidPixels n cr cg cb ca)
     \<lparr> color_r = Num (uint cr), color_g = Num (uint cg), color_b = Num (uint cb) \<rparr> 30 ! i =
      solidPixels n cr cg cb ca ! i"
      unfolding M using False by simp
    also have "\<dots> = solidPixels n cr cg cb 0 ! i"
    proof -
      have "i mod 4 = 0 \<or> i mod 4 = 1 \<or> i mod 4 = 2" using False by presburger
      then show ?thesis unfolding A B by auto
    qed
    finally show ?thesis .
  next
    case True
    then have ge: "3 \<le> i" by presburger
    have m: "(i - 3) mod 4 = 0" using True ge by presburger
    have lt: "i - 3 + 3 < n * 4" using i ge by simp
    have bg: "isBackground (solidPixels n cr cg cb ca) (i - 3)
            \<lparr> color_r = Num (uint cr), color_g = Num (uint cg), color_b = Num (uint cb) \<rparr> 30"
      by (rule isBackground_solid[OF m lt])
    have "makeBackgroundTransparent (solidPixels n cr cg cb ca)
     \<lparr> color_r = Num (uint cr), color_g = Num (uint cg), color_b = Num (uint cb) \<rparr> 30 ! i = 0"
      unfolding M using True bg by simp
    also have "\<dots> = solidPixels n cr cg cb 0 ! i"
      unfolding B using True by simp
    finally show ?thesis .
  qed
qed

lemma findContentBounds_uniform:
  assumes w: "0 < width" and h: "0 < height"
    and u: "\<And>x y. x < width \<Longrightarrow> y < height \<Longrightarrow> isContent pixels width threshold x y = c"
  shows "findContentBounds pixels width height threshold =
         \<lparr> bounds_top = 0, bounds_bottom = height, bounds_left = 0, bounds_right = width \<rparr>"
proof -
  define R where "R = rowHasContent pixels width threshold"
  define C where "C = colHasContent pixels width height threshold"
  define b where "b = findContentBounds pixels width height threshold"
  have R: "R y = c" if "y < height" for y
    using u[OF _ that] w unfolding R_def rowHasContent_iff by auto
  have C: "C x = c" if "x < width" for x
    using u[OF that] h unfolding C_def colHasContent_iff by auto
  have tp: "bounds_top b = (case find R [0..<height] of Some y \<Rightarrow> y | None \<Rightarrow> 0)"
    and bt: "bounds_bottom b = (case find R (rev [0..<height]) of Some y \<Rightarrow> y + 1 | None \<Rightarrow> height)"
    and lf: "bounds_left b = (case find C [0..<width] of Some x \<Rightarrow> x | None \<Rightarrow> 0)"
    and rt: "bounds_right b = (case find C (rev [0..<width]) of Some x \<Rightarrow> x + 1 | None \<Rightarrow> width)"
    by (simp_all add: b_def findContentBounds_def R_def C_def)
  note T = first_edge[of height R, folded tp]
  note B = last_edge[of height R, folded bt]
  note L = first_edge[of width C, folded lf]
  note Rt = last_edge[of width C, folded rt]
  have "bounds_top b = 0 \<and> bounds_bottom b = height \<and> bounds_left b = 0 \<and> bounds_right b = width"
  proof (cases c)
    case True
    have "R 0" "R (height - 1)" "C 0" "C (width - 1)" using R C w h True by simp_all
    then have "bounds_top b \<le> 0" "height - 1 < bounds_bottom b"
      "bounds_left b \<le> 0" "width - 1 < bounds_right b"
      using T(1) B(2) L(1) Rt(2) w h by (metis diff_less zero_less_one)+
    then show ?thesis using B(1) Rt(1) by linarith
  next
    case False
    then have "\<not> (\<exists>y<height. R y)" "\<not> (\<exists>x<width. C x)" using R C by simp_all
    then show ?thesis using T(3) B(4) L(3) Rt(4) by blast
  qed
  then have "b = \<lparr> bounds_top = 0, bounds_bottom = height, bounds_left = 0, bounds_right = width \<rparr>"
    by simp
  then show ?thesis unfolding b_def .
qed

lemma isContent_solid:
  assumes "x < width" "y < height"
  shows "isContent (solidPixels (width * height) cr cg cb ca) width threshold x y =
         (threshold < uint ca)"
proof -
  have len: "length (solidPixels (width * height) cr cg cb ca) = width * height * 4"
    by (rule length_solidPixels)
  have lt: "(y * width + x) * 4 + 3 < width * height * 4"
    by (rule pixel_index_in_range[OF assms])
  have m: "((y * width + x) * 4 + 3) mod 4 = 3" by presburger
  have "solidPixels (width * height) cr cg cb ca ! ((y * width + x) * 4 + 3) = ca"
    using solidPixels_nth_cases[OF lt, of cr cg cb ca] m by simp
  then show ?thesis
    unfolding isContent_alpha[OF len assms] alphaAt_def by simp
qed

lemma findContentBounds_solid:
  assumes "0 < width" "0 < height"
  shows "findContentBounds (solidPixels (width * height) cr cg cb ca) width height threshold =
         \<lparr> bounds_top = 0, bounds_bottom = height, bounds_left = 0, bounds_right = width \<rparr>"
  by (rule findContentBounds_uniform[OF assms, where c = "threshold < uint ca"])
     (rule isContent_solid)

lemma autocropTry_solid:
  assumes raw: "toRaw lib input =
      Inr \<lparr> raw_data = solidPixels (width * height) cr cg cb ca,
            raw_width = width, raw_height = height \<rparr>"
    and w: "20 \<le> width" and h: "20 \<le> height" and a: "128 \<le> uint ca"
  shows "autocropTry lib cfg input =
         extractResizePng lib
           \<lparr> raw_data = solidPixels (width * height) cr cg cb 0,
             raw_width = width, raw_height = height \<rparr>
           \<lparr> region_left = 0, region_top = 0,
             region_width = int width, region_height = int height \<rparr>
           (targetSize cfg)"
proof -
  have pos: "0 < width" "0 < height" using w h by simp_all
  have mp: "maskedPixels (solidPixels (width * height) cr cg cb ca) width height =
            solidPixels (width * height) cr cg cb 0"
    unfolding maskedPixels_def detectBackgroundColor_solid[OF w h a]
    by (simp add: makeBackgroundTransparent_solid)
  show ?thesis
    unfolding autocropTry_def raw
    by (simp add: Let_def mp findContentBounds_solid[OF pos] cropRegion_def)
qed

lemma take4_solidPixels:
  "0 < n \<Longrightarrow> take 4 (solidPixels n cr cg cb ca) = [cr, cg, cb, ca]"
  by (cases n) (simp_all add: solidPixels_def)

lemma stubDecode_solid:
  assumes "w \<noteq> 0" "h \<noteq> 0" "n = unat w * unat h"
  shows "stubDecode (w # h # solidPixels n cr cg cb ca) =
         Inr \<lparr> raw_data = solidPixels n cr cg cb ca, raw_width = unat w, raw_height = unat h \<rparr>"
  using assms by (simp add: stubDecode_def length_solidPixels)

lemma stubEncode_solid:
  "stubEncode \<lparr> raw_data = px, raw_width = unat (w :: byte), raw_height = unat (h :: byte) \<rparr> = w # h # px"
  by (simp add: stubEncode_def)

lemma stub_trim_solid:
  assumes "w \<noteq> 0" "h \<noteq> 0" "n = unat w * unat h"
  shows "trim stubSharp (w # h # solidPixels n cr cg cb ca) t =
         Inl (Error ''Unexpected error while trimming. Try to lower the tolerance'')"
proof -
  have "0 < unat w" "0 < unat h" using assms(1,2) by (simp_all add: unat_gt_0)
  then have n: "0 < n" using assms(3) by simp
  have "concat (replicate n (take 4 (solidPixels n cr cg cb ca))) = solidPixels n cr cg cb ca"
    unfolding take4_solidPixels[OF n] by (simp add: solidPixels_def)
  then show ?thesis
    unfolding stubSharp_def
    by (simp add: stubDecode_solid[OF assms] assms(3)[symmetric])
qed

lemma sublist_trim_message:
  "sublist ''trim'' ''Unexpected error while trimming. Try to lower the tolerance''"
  by code_simp


lemma solidPixels_alpha_differs:
  "0 < n \<Longrightarrow> ca \<noteq> ca' \<Longrightarrow> solidPixels n cr cg cb ca \<noteq> solidPixels n cr cg cb ca'"
proof
  assume n: "0 < n" and d: "ca \<noteq> ca'"
    and e: "solidPixels n cr cg cb ca = solidPixels n cr cg cb ca'"
  have lt: "3 < n * 4" using n by simp
  have "solidPixels n cr cg cb ca ! 3 = ca" "solidPixels n cr cg cb ca' ! 3 = ca'"
    using solidPixels_nth_cases[OF lt, of cr cg cb ca] solidPixels_nth_cases[OF lt, of cr cg cb ca']
    by simp_all
  then show False using d e by simp
qed

text \<open>
  Claim C5, as the code has it.  For every opaque image of 50 by 50 pixels of one
  colour, the pipeline of \<open>main.ts\<close> raises no error in its pixel stages: it takes the
  colour for the background, sets the alpha byte of every pixel to 0, finds the box of
  the full image, and returns what the library makes of the crop, resize and encoding
  of the transparent buffer; \<open>resizeOnly\<close> runs only when the library rejects that chain.
  In the padding variant, when the trim is rejected with an error whose message contains
  \<open>trim\<close>, the result is the library's resize (fit \<open>contain\<close>, to the target size) of
  the input.
\<close>

theorem autocropImage_solid_image:
  "(toRaw lib input =
      Inr \<lparr> raw_data = solidPixels 2500 cr cg cb 255, raw_width = 50, raw_height = 50 \<rparr> \<longrightarrow>
    autocropImage (Some lib) cfg input =
      (case extractResizePng lib
              \<lparr> raw_data = solidPixels 2500 cr cg cb 0, raw_width = 50, raw_height = 50 \<rparr>
              \<lparr> region_left = 0, region_top = 0, region_width = 50, region_height = 50 \<rparr>
              (targetSize cfg) of
         Inr result \<Rightarrow> Inr (Some result)
       | Inl error \<Rightarrow> resizeOnly (Some lib) input)) \<and>
   (\<forall>error. autocropTry_pad lib cfg input = Inl error \<and> sublist ''trim'' (message error) \<longrightarrow>
      autocropImage_pad (Some lib) cfg input =
        (case resizeContainPng lib input (targetSize cfg) of
           Inl error \<Rightarrow> Inl error
         | Inr result \<Rightarrow> Inr (Some result)))"
proof (intro conjI impI allI)
  assume raw: "toRaw lib input =
      Inr \<lparr> raw_data = solidPixels 2500 cr cg cb 255, raw_width = 50, raw_height = 50 \<rparr>"
  have a: "128 \<le> uint (255 :: byte)" by simp
  have raw': "toRaw lib input =
      Inr \<lparr> raw_data = solidPixels (50 * 50) cr cg cb 255, raw_width = 50, raw_height = 50 \<rparr>"
    using raw by simp
  have t: "autocropTry lib cfg input =
         extractResizePng lib
           \<lparr> raw_data = solidPixels 2500 cr cg cb 0, raw_width = 50, raw_height = 50 \<rparr>
           \<lparr> region_left = 0, region_top = 0, region_width = 50, region_height = 50 \<rparr>
           (targetSize cfg)"
    using autocropTry_solid[OF raw' _ _ a, of cfg] by simp
  show "autocropImage (Some lib) cfg input =
      (case extractResizePng lib
              \<lparr> raw_data = solidPixels 2500 cr cg cb 0, raw_width = 50, raw_height = 50 \<rparr>
              \<lparr> region_left = 0, region_top = 0, region_width = 50, region_height = 50 \<rparr>
              (targetSize cfg) of
         Inr result \<Rightarrow> Inr (Some result)
       | Inl error \<Rightarrow> resizeOnly (Some lib) input)"
    by (simp add: autocropImage_def t split: sum.splits)
next
  fix error
  assume "autocropTry_pad lib cfg input = Inl error \<and> sublist ''trim'' (message error)"
  then show "autocropImage_pad (Some lib) cfg input =
        (case resizeContainPng lib input (targetSize cfg) of
           Inl error \<Rightarrow> Inl error
         | Inr result \<Rightarrow> Inr (Some result))"
    by (simp add: autocropImage_pad_def resizeOnly_pad_def)
qed

lemma stub_toRaw_solid50:
  "toRaw stubSharp (50 # 50 # solidPixels 2500 cr cg cb ca) =
   Inr \<lparr> raw_data = solidPixels 2500 cr cg cb ca, raw_width = 50, raw_height = 50 \<rparr>"
  using stubDecode_solid[of 50 50 2500 cr cg cb ca]
  by (simp add: stubSharp_def)

lemma stub_extract_solid50:
  "0 < target \<Longrightarrow>
   extractResizePng stubSharp
     \<lparr> raw_data = px, raw_width = 50, raw_height = 50 \<rparr>
     \<lparr> region_left = 0, region_top = 0, region_width = 50, region_height = 50 \<rparr> target =
   Inr (50 # 50 # px)"
  by (simp add: stubSharp_def stubEncode_def)

lemma stub_resizeOnly_solid50:
  "resizeOnly (Some stubSharp) (50 # 50 # solidPixels 2500 cr cg cb ca) =
   Inr (Some (50 # 50 # solidPixels 2500 cr cg cb ca))"
  using stubDecode_solid[of 50 50 2500 cr cg cb ca]
  by (simp add: resizeOnly_def stubSharp_def stubEncode_def)

lemma stub_autocropTry_solid50:
  "autocropTry stubSharp cfg (50 # 50 # solidPixels 2500 cr cg cb 255) =
   extractResizePng stubSharp
     \<lparr> raw_data = solidPixels 2500 cr cg cb 0, raw_width = 50, raw_height = 50 \<rparr>
     \<lparr> region_left = 0, region_top = 0, region_width = 50, region_height = 50 \<rparr>
     (targetSize cfg)"
proof -
  have a: "128 \<le> uint (255 :: byte)" by simp
  have raw': "toRaw stubSharp (50 # 50 # solidPixels 2500 cr cg cb 255) =
      Inr \<lparr> raw_data = solidPixels (50 * 50) cr cg cb 255, raw_width = 50, raw_height = 50 \<rparr>"
    using stub_toRaw_solid50[of cr cg cb 255] by simp
  show ?thesis
    using autocropTry_solid[OF raw' _ _ a, of cfg] by simp
qed

theorem autocropImage_solid_image_witness:
  "autocropImage (Some stubSharp) DEFAULT_SETTINGS (50 # 50 # solidPixels 2500 255 0 0 255) =
     Inr (Some (50 # 50 # solidPixels 2500 255 0 0 0)) \<and>
   autocropImage_pad (Some stubSharp) DEFAULT_SETTINGS (50 # 50 # solidPixels 2500 255 0 0 255) =
     Inr (Some (50 # 50 # solidPixels 2500 255 0 0 255))"
proof -
  let ?input = "50 # 50 # solidPixels 2500 255 0 0 255"
  note T = autocropImage_solid_image[of stubSharp ?input 255 0 0 DEFAULT_SETTINGS]
  have ts: "targetSize DEFAULT_SETTINGS = 200" by (simp add: DEFAULT_SETTINGS_def)
  have 1: "autocropImage (Some stubSharp) DEFAULT_SETTINGS ?input =
     Inr (Some (50 # 50 # solidPixels 2500 255 0 0 0))"
    using T[THEN conjunct1, rule_format, OF stub_toRaw_solid50]
    by (simp add: ts stub_extract_solid50)
  have md: "metadata stubSharp ?input = Inr \<lparr> meta_width = Some 50, meta_height = Some 50 \<rparr>"
    using stubDecode_solid[of 50 50 2500 255 0 0 255] by (simp add: stubSharp_def)
  have tr: "trim stubSharp ?input 10 =
            Inl (Error ''Unexpected error while trimming. Try to lower the tolerance'')"
    by (rule stub_trim_solid) simp_all
  have tp: "autocropTry_pad stubSharp DEFAULT_SETTINGS ?input =
             Inl (Error ''Unexpected error while trimming. Try to lower the tolerance'')"
    unfolding autocropTry_pad_def
    by (simp add: DEFAULT_SETTINGS_def md tr falsy_def Let_def)
  have rc: "resizeContainPng stubSharp ?input 200 = Inr ?input"
    using stubDecode_solid[of 50 50 2500 255 0 0 255]
    by (simp add: stubSharp_def stubSized_def stubEncode_def)
  have 2: "autocropImage_pad (Some stubSharp) DEFAULT_SETTINGS ?input = Inr (Some ?input)"
    using T[THEN conjunct2, rule_format, of "Error ''Unexpected error while trimming. Try to lower the tolerance''"]
      tp sublist_trim_message
    by (simp add: ts rc)
  from 1 2 show ?thesis by blast
qed

text \<open>
  Claim C5 as stated fails for \<open>main.ts\<close>: on an opaque red image of 50 by 50 pixels the
  output is made from the buffer with every alpha byte 0, which differs from what
  \<open>resizeOnly\<close> and the crop chain make of the input.
\<close>

theorem autocropImage_solid_not_resize_of_input:
  "autocropImage (Some stubSharp) DEFAULT_SETTINGS (50 # 50 # solidPixels 2500 255 0 0 255) =
     Inr (Some (50 # 50 # solidPixels 2500 255 0 0 0)) \<and>
   resizeOnly (Some stubSharp) (50 # 50 # solidPixels 2500 255 0 0 255) =
     Inr (Some (50 # 50 # solidPixels 2500 255 0 0 255)) \<and>
   extractResizePng stubSharp
     \<lparr> raw_data = solidPixels 2500 255 0 0 255, raw_width = 50, raw_height = 50 \<rparr>
     \<lparr> region_left = 0, region_top = 0, region_width = 50, region_height = 50 \<rparr>
     (targetSize DEFAULT_SETTINGS) =
     Inr (50 # 50 # solidPixels 2500 255 0 0 255) \<and>
   50 # 50 # solidPixels 2500 255 0 0 0 \<noteq> 50 # 50 # solidPixels 2500 255 0 0 255"
proof -
  have ts: "targetSize DEFAULT_SETTINGS = 200" by (simp add: DEFAULT_SETTINGS_def)
  have 1: "autocropImage (Some stubSharp) DEFAULT_SETTINGS (50 # 50 # solidPixels 2500 255 0 0 255) =
     Inr (Some (50 # 50 # solidPixels 2500 255 0 0 0))"
    by (simp add: autocropImage_def stub_autocropTry_solid50 ts stub_extract_solid50)
  have 2: "resizeOnly (Some stubSharp) (50 # 50 # solidPixels 2500 255 0 0 255) =
     Inr (Some (50 # 50 # solidPixels 2500 255 0 0 255))"
    by (rule stub_resizeOnly_solid50)
  have 3: "extractResizePng stubSharp
     \<lparr> raw_data = solidPixels 2500 255 0 0 255, raw_width = 50, raw_height = 50 \<rparr>
     \<lparr> region_left = 0, region_top = 0, region_width = 50, region_height = 50 \<rparr>
     (targetSize DEFAULT_SETTINGS) =
     Inr (50 # 50 # solidPixels 2500 255 0 0 255)"
    by (simp add: ts stub_extract_solid50)
  have "solidPixels 2500 255 0 0 0 \<noteq> solidPixels 2500 255 0 0 (255 :: byte)"
    by (rule solidPixels_alpha_differs) simp_all
  then have 4: "50 # 50 # solidPixels 2500 255 0 0 0 \<noteq> 50 # 50 # solidPixels 2500 255 0 0 (255 :: byte)"
    by simp
  from 1 2 3 4 show ?thesis by blast
qed








section \<open>Runs of \<open>processImage\<close> with a failing stage\<close>



end
